theory Spec2Isabelle
  imports Complex_Main "HOL-Library.AList"
begin

section \<open>The Wordle bot of \<^verbatim>\<open>wordle.py\<close>\<close>

text \<open>
  The class \<^verbatim>\<open>Wordle\<close> keeps its whole state in attributes of \<^verbatim>\<open>self\<close>. The model is a
  record of these attributes, every method a function from the record to the updated
  record, and every exception a value of \<open>error\<close>. A method that raises leaves the object
  as it was at the \<^verbatim>\<open>raise\<close>: its result is \<open>Inl\<close> of the exception and of that state.

  Two attributes, \<^verbatim>\<open>self.freq\<close> and \<^verbatim>\<open>self.filtered\<close>, may refer to the same dictionary
  object (\<^verbatim>\<open>self.filtered = self.freq\<close>). They are modelled as addresses into a store of
  dictionary objects, so that binding an attribute to a new dictionary and writing into
  an existing one are different things in the model, as they are in Python. The other
  containers (\<^verbatim>\<open>not_in\<close>, \<^verbatim>\<open>contains\<close>, \<^verbatim>\<open>equals\<close>, \<^verbatim>\<open>guesses\<close>, \<^verbatim>\<open>board\<close>) are referred to
  from one attribute only, so they are plain values.

  A Python \<^verbatim>\<open>dict\<close> is an association list in insertion order with distinct keys;
  \<open>AList.update\<close> is the assignment \<^verbatim>\<open>d[k] = v\<close> (an existing key keeps its place, a new key
  goes to the end). The zipf scores are floating-point numbers in the source; the model
  takes them as rationals, and uses only their sum, their quotients and their signs.
\<close>

subsection \<open>Data\<close>

datatype error =
    WordLengthError
  | InvalidWordError
  | VersionError
  | IndexError
  | ZeroDivisionError
  | ValueError

text \<open>The three symbols of a board row: \<^verbatim>\<open>green_square\<close>, \<^verbatim>\<open>yellow_square\<close>, \<^verbatim>\<open>gray_square\<close>.\<close>

datatype square = Green | Yellow | Gray

type_synonym lexicon = "(string \<times> rat) list"

record wordle =
  answer :: string
  words :: "string list"
  store :: "nat \<Rightarrow> lexicon"
  next_addr :: nat
  freq :: nat
  filtered :: nat
  played :: bool
  solved :: bool
  not_in :: "char list"
  contains :: "(nat \<times> char list) list"
  equals :: "(nat \<times> char) list"
  guesses :: "string list"
  board :: "square list list"

text \<open>
  The result of a method: the exception and the state of the object when it was raised,
  or the value returned.
\<close>

type_synonym 'a result = "(error \<times> wordle) + 'a"

text \<open>The dictionary objects that \<^verbatim>\<open>self.filtered\<close> and \<^verbatim>\<open>self.freq\<close> refer to.\<close>

definition filtered_dict :: "wordle \<Rightarrow> lexicon" where
  "filtered_dict s = store s (filtered s)"

definition freq_dict :: "wordle \<Rightarrow> lexicon" where
  "freq_dict s = store s (freq s)"

definition keys :: "lexicon \<Rightarrow> string set" where
  "keys d = fst ` set d"

subsection \<open>Construction\<close>

text \<open>
  Lines 79-85: one score per word, then the items sorted by score, highest first.
  Python's \<^verbatim>\<open>sorted(..., reverse=True)\<close> is stable, as \<open>sort_key\<close> on the negated score is.
\<close>

definition build_freq :: "(string \<Rightarrow> rat) \<Rightarrow> string list \<Rightarrow> lexicon" where
  "build_freq zf ws =
     sort_key (\<lambda>(w, sc). - sc) (foldl (\<lambda>fr w. AList.update w (zf w) fr) [] ws)"

text \<open>
  \<^verbatim>\<open>__init__\<close>, lines 62-97. The choice of the two files by \<^verbatim>\<open>version\<close>, their reading and
  the random answer are input and output: \<open>ans\<close> is \<^verbatim>\<open>self.answer\<close> as lines 52-60 set it,
  \<open>ws\<close> the sorted word list of line 70 and \<open>zf\<close> the score \<^verbatim>\<open>zf(word, "en")\<close>.
\<close>

definition init :: "string \<Rightarrow> string list \<Rightarrow> (string \<Rightarrow> rat) \<Rightarrow> error + wordle" where
  "init ans ws zf =
     (if length ans \<noteq> 5 then Inl WordLengthError
      else if ans \<notin> set ws then Inl InvalidWordError
      else Inr \<lparr>answer = ans, words = ws,
                store = (\<lambda>a. [])(0 := build_freq zf ws), next_addr = 1,
                freq = 0, filtered = 0,
                played = False, solved = False,
                not_in = [], contains = [], equals = [],
                guesses = [], board = []\<rparr>)"

subsection \<open>The methods\<close>

text \<open>\<^verbatim>\<open>reset_game\<close>, lines 126-135. \<^verbatim>\<open>self.filtered = self.freq\<close> copies the reference.\<close>

definition reset_game :: "wordle \<Rightarrow> wordle" where
  "reset_game s =
     s\<lparr>played := False, solved := False, filtered := freq s,
       not_in := [], contains := [], equals := [], guesses := [], board := []\<rparr>"

text \<open>\<^verbatim>\<open>return_total_moves\<close>, lines 137-148.\<close>

definition return_total_moves :: "wordle \<Rightarrow> nat" where
  "return_total_moves s =
     (if \<not> solved s \<and> length (guesses s) = 6 then 7 else length (guesses s))"

text \<open>
  \<^verbatim>\<open>numpy.random.choice(a, p=p)\<close> is library code. By its documentation it raises
  \<^verbatim>\<open>ValueError\<close> when \<^verbatim>\<open>a\<close> is empty, when \<^verbatim>\<open>a\<close> and \<^verbatim>\<open>p\<close> differ in size, when \<^verbatim>\<open>p\<close> has a
  negative entry and when \<^verbatim>\<open>p\<close> does not sum to 1, and otherwise returns entry \<open>i\<close> of \<^verbatim>\<open>a\<close>
  with probability \<^verbatim>\<open>p[i]\<close>. The random draw is the parameter \<open>pick\<close>: it selects among the
  entries of positive probability.
\<close>

definition random_choice :: "nat \<Rightarrow> string list \<Rightarrow> rat list \<Rightarrow> error + string" where
  "random_choice pick a p =
     (if a = [] then Inl ValueError
      else if length p \<noteq> length a then Inl ValueError
      else if \<exists>x\<in>set p. x < 0 then Inl ValueError
      else if sum_list p \<noteq> 1 then Inl ValueError
      else let support = map fst (filter (\<lambda>(w, q). 0 < q) (zip a p))
           in Inr (support ! (pick mod length support)))"

text \<open>
  \<^verbatim>\<open>make_guess\<close>, lines 150-164. The quotient of line 161 raises \<^verbatim>\<open>ZeroDivisionError\<close> when
  the scores sum to zero and there is a word to divide for.
\<close>

definition make_guess :: "nat \<Rightarrow> wordle \<Rightarrow> (string \<times> wordle) result" where
  "make_guess pick s =
     (let d = store s (filtered s);
          tot = sum_list (map snd d)
      in if d \<noteq> [] \<and> tot = 0 then Inl (ZeroDivisionError, s)
         else case random_choice pick (map fst d) (map (\<lambda>(w, sc). sc / tot) d) of
                Inl e \<Rightarrow> Inl (e, s)
              | Inr guess \<Rightarrow> Inr (guess, s\<lparr>guesses := guesses s @ [guess]\<rparr>))"

text \<open>
  The body of the loop of \<^verbatim>\<open>check_word\<close>, lines 180-197, at position \<open>j\<close>, on the row
  \<open>bd\<close> built so far. \<^verbatim>\<open>guess[j]\<close> raises \<^verbatim>\<open>IndexError\<close> beyond the end of the guess.
\<close>

definition check_letter :: "string \<Rightarrow> nat \<Rightarrow> square list \<times> wordle \<Rightarrow> (square list \<times> wordle) result" where
  "check_letter guess j acc =
     (case acc of (bd, s) \<Rightarrow>
        if length guess \<le> j then Inl (IndexError, s)
        else let t_let = answer s ! j; g_let = guess ! j
             in if g_let = t_let
                then Inr (bd @ [Green], s\<lparr>equals := AList.update j g_let (equals s)\<rparr>)
                else if g_let \<in> set (answer s)
                then Inr (bd @ [Yellow],
                          s\<lparr>contains :=
                              (case map_of (contains s) j of
                                 None \<Rightarrow> AList.update j [g_let] (contains s)
                               | Some ls \<Rightarrow> AList.update j (ls @ [g_let]) (contains s))\<rparr>)
                else Inr (bd @ [Gray], s\<lparr>not_in := not_in s @ [g_let]\<rparr>))"

text \<open>The loop of line 179 over the positions \<open>js\<close>; an exception ends it.\<close>

fun check_letters :: "string \<Rightarrow> nat list \<Rightarrow> square list \<times> wordle \<Rightarrow> (square list \<times> wordle) result" where
  "check_letters guess [] acc = Inr acc"
| "check_letters guess (j # js) acc =
     (case check_letter guess j acc of
        Inl e \<Rightarrow> Inl e
      | Inr acc' \<Rightarrow> check_letters guess js acc')"

text \<open>\<^verbatim>\<open>check_word\<close>, lines 166-201.\<close>

definition check_word :: "string \<Rightarrow> wordle \<Rightarrow> wordle result" where
  "check_word guess s =
     (if solved s then Inr s
      else case check_letters guess [0..<length (answer s)] ([], s) of
             Inl e \<Rightarrow> Inl e
           | Inr (bd, s') \<Rightarrow> Inr (s'\<lparr>board := board s' @ [bd]\<rparr>))"

text \<open>\<^verbatim>\<open>is_solved\<close>, lines 203-211.\<close>

definition is_solved :: "string \<Rightarrow> wordle \<Rightarrow> bool" where
  "is_solved guess s = (guess = answer s)"

text \<open>
  A dictionary comprehension builds a new dictionary object, and the assignment binds
  \<^verbatim>\<open>self.filtered\<close> to it: the new object gets a fresh address, no existing object is
  written.
\<close>

definition rebind_filtered :: "lexicon \<Rightarrow> wordle \<Rightarrow> wordle" where
  "rebind_filtered d s =
     s\<lparr>store := (store s)(next_addr s := d),
       filtered := next_addr s,
       next_addr := Suc (next_addr s)\<rparr>"

text \<open>
  The first loop of \<^verbatim>\<open>filter_possible\<close>, lines 222-227, over the items of \<^verbatim>\<open>self.equals\<close>.
  \<^verbatim>\<open>word[k]\<close> raises \<^verbatim>\<open>IndexError\<close> on a word of length at most \<open>k\<close>.
\<close>

fun filter_equals :: "(nat \<times> char) list \<Rightarrow> wordle \<Rightarrow> wordle result" where
  "filter_equals [] s = Inr s"
| "filter_equals ((k, c) # es) s =
     (let d = store s (filtered s)
      in if \<exists>(w, sc)\<in>set d. length w \<le> k then Inl (IndexError, s)
         else filter_equals es (rebind_filtered (filter (\<lambda>(w, sc). w ! k = c) d) s))"

text \<open>
  The inner loop of lines 230-235 over the letters recorded at position \<open>k\<close>. In
  \<^verbatim>\<open>let in word and not word[k] == let\<close> the index is read only when the letter is in the
  word.
\<close>

fun filter_contains_at :: "nat \<Rightarrow> char list \<Rightarrow> wordle \<Rightarrow> wordle result" where
  "filter_contains_at k [] s = Inr s"
| "filter_contains_at k (l # ls) s =
     (let d = store s (filtered s)
      in if \<exists>(w, sc)\<in>set d. l \<in> set w \<and> length w \<le> k then Inl (IndexError, s)
         else filter_contains_at k ls
                (rebind_filtered (filter (\<lambda>(w, sc). l \<in> set w \<and> w ! k \<noteq> l) d) s))"

text \<open>The outer loop of line 229 over the items of \<^verbatim>\<open>self.contains\<close>.\<close>

fun filter_contains :: "(nat \<times> char list) list \<Rightarrow> wordle \<Rightarrow> wordle result" where
  "filter_contains [] s = Inr s"
| "filter_contains ((k, ls) # cs) s =
     (case filter_contains_at k ls s of
        Inl e \<Rightarrow> Inl e
      | Inr s' \<Rightarrow> filter_contains cs s')"

text \<open>The third loop, lines 237-240, over \<^verbatim>\<open>self.not_in\<close>; nothing in it raises.\<close>

fun filter_not_in :: "char list \<Rightarrow> wordle \<Rightarrow> wordle" where
  "filter_not_in [] s = s"
| "filter_not_in (k # ks) s =
     filter_not_in ks
       (rebind_filtered (filter (\<lambda>(w, sc). k \<notin> set w) (store s (filtered s))) s)"

text \<open>\<^verbatim>\<open>filter_possible\<close>, lines 213-242.\<close>

definition filter_possible :: "wordle \<Rightarrow> wordle result" where
  "filter_possible s =
     (case filter_equals (equals s) s of
        Inl e \<Rightarrow> Inl e
      | Inr s1 \<Rightarrow>
          (case filter_contains (contains s1) s1 of
             Inl e \<Rightarrow> Inl e
           | Inr s2 \<Rightarrow> Inr (filter_not_in (not_in s2) s2)))"

text \<open>
  \<^verbatim>\<open>print_state\<close>, lines 244-255: the printed lines, one per board row. \<^verbatim>\<open>self.guesses[i]\<close>
  raises \<^verbatim>\<open>IndexError\<close> when the board has more rows than there are guesses.
  (The name \<^verbatim>\<open>print_state\<close> is a keyword of Isabelle.)
\<close>

definition print_state_rows :: "wordle \<Rightarrow> ((square list \<times> string) list) result" where
  "print_state_rows s =
     (if length (guesses s) < length (board s) then Inl (IndexError, s)
      else Inr (zip (board s) (guesses s)))"

text \<open>
  One pass through the body of the loop of \<^verbatim>\<open>play\<close>, lines 111-115: the guess of the
  round and the state before the test of line 117.
\<close>

definition play_round :: "nat \<Rightarrow> wordle \<Rightarrow> (string \<times> wordle) result" where
  "play_round pick s =
     (case make_guess pick s of
        Inl e \<Rightarrow> Inl e
      | Inr (guess, s1) \<Rightarrow>
          (case check_word guess s1 of
             Inl e \<Rightarrow> Inl e
           | Inr s2 \<Rightarrow>
               (case filter_possible s2 of
                  Inl e \<Rightarrow> Inl e
                | Inr s3 \<Rightarrow> Inr (guess, s3))))"

text \<open>
  The loop of line 110 over the rounds \<open>is\<close>, with the \<^verbatim>\<open>break\<close> of line 119. \<open>picks i\<close> is the
  random draw of round \<open>i\<close>.
\<close>

fun play_rounds :: "(nat \<Rightarrow> nat) \<Rightarrow> nat list \<Rightarrow> wordle \<Rightarrow> wordle result" where
  "play_rounds picks [] s = Inr s"
| "play_rounds picks (i # is) s =
     (case play_round (picks i) s of
        Inl e \<Rightarrow> Inl e
      | Inr (guess, s') \<Rightarrow>
          if is_solved guess s' then Inr (s'\<lparr>solved := True\<rparr>)
          else play_rounds picks is s')"

text \<open>\<^verbatim>\<open>play\<close>, lines 99-124: the returned \<^verbatim>\<open>self.solved\<close> and the state.\<close>

definition play :: "(nat \<Rightarrow> nat) \<Rightarrow> wordle \<Rightarrow> (bool \<times> wordle) result" where
  "play picks s =
     (case play_rounds picks [0..<6] (if played s then reset_game s else s) of
        Inl e \<Rightarrow> Inl e
      | Inr s1 \<Rightarrow>
          (case print_state_rows s1 of
             Inl e \<Rightarrow> Inl e
           | Inr out \<Rightarrow> Inr (solved s1, s1\<lparr>played := True\<rparr>)))"

subsection \<open>Predicates on sessions\<close>

text \<open>
  The lexicon as the specification describes it: the answer is one of its words, every
  word has the length of the answer and every score is positive.
\<close>

definition lexicon_ok :: "string \<Rightarrow> lexicon \<Rightarrow> bool" where
  "lexicon_ok ans d \<longleftrightarrow>
     ans \<in> keys d \<and> (\<forall>(w, sc)\<in>set d. length w = length ans \<and> 0 < sc)"

text \<open>The session state that \<^verbatim>\<open>__init__\<close> and \<^verbatim>\<open>reset_game\<close> leave.\<close>

definition fresh :: "wordle \<Rightarrow> bool" where
  "fresh s \<longleftrightarrow>
     \<not> solved s \<and> filtered s = freq s \<and> not_in s = [] \<and> contains s = [] \<and>
     equals s = [] \<and> guesses s = [] \<and> board s = []"

text \<open>Every recorded constraint is true of the answer.\<close>

definition consistent :: "wordle \<Rightarrow> bool" where
  "consistent s \<longleftrightarrow>
     (\<forall>(k, c)\<in>set (equals s). k < length (answer s) \<and> answer s ! k = c) \<and>
     (\<forall>(k, ls)\<in>set (contains s). k < length (answer s) \<and>
         (\<forall>l\<in>set ls. l \<in> set (answer s) \<and> answer s ! k \<noteq> l)) \<and>
     (\<forall>l\<in>set (not_in s). l \<notin> set (answer s))"

text \<open>
  A game in progress: not solved, the constraints consistent, and the candidate set a
  lexicon that holds the answer.
\<close>

definition in_progress :: "wordle \<Rightarrow> bool" where
  "in_progress s \<longleftrightarrow>
     \<not> solved s \<and> consistent s \<and> lexicon_ok (answer s) (filtered_dict s)"

subsection \<open>Auxiliary notions\<close>

text \<open>The letters recorded at position \<open>k\<close>: \<^verbatim>\<open>self.contains.get(k, [])\<close>.\<close>

definition letters_at :: "(nat \<times> char list) list \<Rightarrow> nat \<Rightarrow> char list" where
  "letters_at c k = (case map_of c k of None \<Rightarrow> [] | Some ls \<Rightarrow> ls)"

text \<open>The symbol that the loop body of \<^verbatim>\<open>check_word\<close> appends at position \<open>j\<close>.\<close>

definition square_at :: "string \<Rightarrow> string \<Rightarrow> nat \<Rightarrow> square" where
  "square_at ans guess j =
     (if guess ! j = ans ! j then Green else if guess ! j \<in> set ans then Yellow else Gray)"

text \<open>Everything but the three constraint containers is the same in both states.\<close>

definition constraints_frame :: "wordle \<Rightarrow> wordle \<Rightarrow> bool" where
  "constraints_frame s s' \<longleftrightarrow>
     answer s' = answer s \<and> words s' = words s \<and> store s' = store s \<and>
     next_addr s' = next_addr s \<and> freq s' = freq s \<and> filtered s' = filtered s \<and>
     played s' = played s \<and> solved s' = solved s \<and> guesses s' = guesses s \<and>
     board s' = board s"

text \<open>Everything but the store, its next free address and \<^verbatim>\<open>self.filtered\<close> is the same.\<close>

definition filtered_frame :: "wordle \<Rightarrow> wordle \<Rightarrow> bool" where
  "filtered_frame s s' \<longleftrightarrow>
     answer s' = answer s \<and> words s' = words s \<and> freq s' = freq s \<and>
     played s' = played s \<and> solved s' = solved s \<and>
     not_in s' = not_in s \<and> contains s' = contains s \<and> equals s' = equals s \<and>
     guesses s' = guesses s \<and> board s' = board s \<and>
     next_addr s \<le> next_addr s' \<and> (\<forall>a<next_addr s. store s' a = store s a)"

text \<open>The word \<open>w\<close> passes the three tests of \<^verbatim>\<open>filter_possible\<close>.\<close>

definition admits :: "wordle \<Rightarrow> string \<Rightarrow> bool" where
  "admits s w \<longleftrightarrow>
     (\<forall>(k, c)\<in>set (equals s). w ! k = c) \<and>
     (\<forall>(k, ls)\<in>set (contains s). \<forall>l\<in>set ls. l \<in> set w \<and> w ! k \<noteq> l) \<and>
     (\<forall>l\<in>set (not_in s). l \<notin> set w)"

text \<open>
  The state of the object after a call, whether the call returned or raised: of a method
  that returns nothing, and of one that returns a value.
\<close>

definition after :: "wordle result \<Rightarrow> wordle" where
  "after r = (case r of Inl (e, s) \<Rightarrow> s | Inr s \<Rightarrow> s)"

definition after_value :: "('a \<times> wordle) result \<Rightarrow> wordle" where
  "after_value r = (case r of Inl (e, s) \<Rightarrow> s | Inr (x, s) \<Rightarrow> s)"

text \<open>
  The answer and the reference \<^verbatim>\<open>self.freq\<close> are the same in both states, and every
  dictionary object of the first state is unchanged in the second.
\<close>

definition lexicon_frame :: "wordle \<Rightarrow> wordle \<Rightarrow> bool" where
  "lexicon_frame s s' \<longleftrightarrow>
     answer s' = answer s \<and> words s' = words s \<and> freq s' = freq s \<and>
     next_addr s \<le> next_addr s' \<and> (\<forall>a<next_addr s. store s' a = store s a)"

text \<open>
  The calls a user of the object can make that change it, and the state they leave, one
  after the other. A call that raises leaves the state of the \<^verbatim>\<open>raise\<close>, and the next
  call goes on from there.
\<close>

datatype call =
    Play "nat \<Rightarrow> nat"
  | Make_guess nat
  | Check_word string
  | Filter_possible
  | Reset_game

definition do_call :: "wordle \<Rightarrow> call \<Rightarrow> wordle" where
  "do_call s c =
     (case c of
        Play picks \<Rightarrow> after_value (play picks s)
      | Make_guess pick \<Rightarrow> after_value (make_guess pick s)
      | Check_word guess \<Rightarrow> after (check_word guess s)
      | Filter_possible \<Rightarrow> after (filter_possible s)
      | Reset_game \<Rightarrow> reset_game s)"

definition do_calls :: "wordle \<Rightarrow> call list \<Rightarrow> wordle" where
  "do_calls s cs = foldl do_call s cs"

subsection \<open>Example sessions\<close>

text \<open>
  The session that \<^verbatim>\<open>__init__\<close> builds for the answer \<^verbatim>\<open>angle\<close>, the words \<^verbatim>\<open>angle\<close>, \<^verbatim>\<open>ankle\<close>,
  \<^verbatim>\<open>apple\<close> and the scores 8, 6 and 10.
\<close>

definition angle_session :: wordle where
  "angle_session =
     \<lparr>answer = ''angle'', words = [''angle'', ''ankle'', ''apple''],
      store = (\<lambda>a. [])(0 := [(''apple'', 10), (''angle'', 8), (''ankle'', 6)]),
      next_addr = 1, freq = 0, filtered = 0, played = False, solved = False,
      not_in = [], contains = [], equals = [], guesses = [], board = []\<rparr>"

text \<open>
  The session that \<^verbatim>\<open>__init__\<close> builds for the answer \<^verbatim>\<open>watch\<close> and seven words of equal
  score.
\<close>

definition watch_session :: wordle where
  "watch_session =
     \<lparr>answer = ''watch'',
      words = [''batch'', ''catch'', ''hatch'', ''latch'', ''match'', ''patch'', ''watch''],
      store = (\<lambda>a. [])(0 := [(''batch'', 1), (''catch'', 1), (''hatch'', 1), (''latch'', 1),
                               (''match'', 1), (''patch'', 1), (''watch'', 1)]),
      next_addr = 1, freq = 0, filtered = 0, played = False, solved = False,
      not_in = [], contains = [], equals = [], guesses = [], board = []\<rparr>"

text \<open>The random draws that select the first candidate in every round.\<close>

definition first_pick :: "nat \<Rightarrow> nat" where
  "first_pick i = 0"

section \<open>Properties\<close>

subsection \<open>The session that \<^verbatim>\<open>__init__\<close> builds\<close>

lemma set_update_same:
  "\<forall>(k', v')\<in>set al. k' = k \<longrightarrow> v' = v \<Longrightarrow> set (AList.update k v al) = insert (k, v) (set al)"
  by (induction al) auto

lemma set_foldl_update:
  assumes "\<forall>(w, v)\<in>set acc. v = zf w"
  shows "set (foldl (\<lambda>fr w. AList.update w (zf w) fr) acc ws) = set acc \<union> (\<lambda>w. (w, zf w)) ` set ws"
  using assms
proof (induction ws arbitrary: acc)
  case Nil
  show ?case by simp
next
  case (Cons w ws)
  have s: "set (AList.update w (zf w) acc) = insert (w, zf w) (set acc)"
    using Cons.prems by (intro set_update_same) auto
  then have "\<forall>(w', v)\<in>set (AList.update w (zf w) acc). v = zf w'"
    using Cons.prems by auto
  from Cons.IH [OF this] s show ?case by auto
qed

lemma set_build_freq: "set (build_freq zf ws) = (\<lambda>w. (w, zf w)) ` set ws"
  by (simp add: build_freq_def set_foldl_update)

text \<open>
  The session that \<^verbatim>\<open>__init__\<close> builds is fresh, and when the words have five letters and
  positive scores its lexicon is as the specification describes it.
\<close>

lemma init_session_ok:
  assumes "init ans ws zf = Inr s" and "\<forall>w\<in>set ws. length w = 5 \<and> 0 < zf w"
  shows "fresh s \<and> lexicon_ok (answer s) (freq_dict s)"
proof -
  from assms(1) have a: "length ans = 5" "ans \<in> set ws"
    and s: "s = \<lparr>answer = ans, words = ws,
                store = (\<lambda>a. [])(0 := build_freq zf ws), next_addr = 1,
                freq = 0, filtered = 0,
                played = False, solved = False,
                not_in = [], contains = [], equals = [],
                guesses = [], board = []\<rparr>"
    by (auto simp: init_def split: if_splits)
  have "fresh s" by (simp add: s fresh_def)
  moreover have "lexicon_ok (answer s) (freq_dict s)"
    using a assms(2)
    by (auto simp: s lexicon_ok_def freq_dict_def keys_def set_build_freq image_image)
  ultimately show ?thesis by simp
qed

text \<open>The two example sessions are built by \<^verbatim>\<open>__init__\<close>.\<close>

lemma angle_session_init:
  "init ''angle'' [''angle'', ''ankle'', ''apple'']
     (\<lambda>w. if w = ''apple'' then 10 else if w = ''angle'' then 8 else 6) = Inr angle_session"
  by (simp add: init_def angle_session_def build_freq_def)

lemma watch_session_init:
  "init ''watch'' [''batch'', ''catch'', ''hatch'', ''latch'', ''match'', ''patch'', ''watch'']
     (\<lambda>w. 1) = Inr watch_session"
  by (simp add: init_def watch_session_def build_freq_def)

subsection \<open>The loop of \<^verbatim>\<open>check_word\<close>\<close>

lemma constraints_frame_refl: "constraints_frame s s"
  by (simp add: constraints_frame_def)

lemma constraints_frame_trans:
  "constraints_frame s s1 \<Longrightarrow> constraints_frame s1 s2 \<Longrightarrow> constraints_frame s s2"
  by (simp add: constraints_frame_def)

lemma check_letter_Inr:
  assumes "j < length guess"
  shows "\<exists>s'. check_letter guess j (bd, s) = Inr (bd @ [square_at (answer s) guess j], s') \<and>
     constraints_frame s s' \<and>
     equals s' = (if guess ! j = answer s ! j then AList.update j (answer s ! j) (equals s) else equals s) \<and>
     contains s' = (if square_at (answer s) guess j = Yellow
                     then AList.update j (letters_at (contains s) j @ [guess ! j]) (contains s)
                     else contains s) \<and>
     not_in s' = (if square_at (answer s) guess j = Gray then not_in s @ [guess ! j] else not_in s)"
  using assms
  by (simp add: check_letter_def square_at_def Let_def constraints_frame_def letters_at_def split: option.splits)

lemma check_letter_Inl:
  "length guess \<le> j \<Longrightarrow> check_letter guess j (bd, s) = Inl (IndexError, s)"
  by (simp add: check_letter_def)

lemma letters_at_update:
  "letters_at (AList.update j v c) k = (if k = j then v else letters_at c k)"
  by (simp add: letters_at_def update_conv')

text \<open>
  The effect of the loop of \<^verbatim>\<open>check_word\<close> on a guess long enough: the row, and what each of
  the three containers holds afterwards.
\<close>

lemma check_letters_Inr:
  assumes "\<forall>j\<in>set js. j < length guess"
  shows "\<exists>s'. check_letters guess js (bd, s) = Inr (bd @ map (square_at (answer s) guess) js, s') \<and>
     constraints_frame s s' \<and>
     (\<forall>k. map_of (equals s') k =
            (if k \<in> set js \<and> guess ! k = answer s ! k then Some (answer s ! k)
             else map_of (equals s) k)) \<and>
     (\<forall>k. set (letters_at (contains s') k) =
            (if k \<in> set js \<and> square_at (answer s) guess k = Yellow
             then insert (guess ! k) (set (letters_at (contains s) k))
             else set (letters_at (contains s) k))) \<and>
     set (not_in s') =
       set (not_in s) \<union> {guess ! j | j. j \<in> set js \<and> square_at (answer s) guess j = Gray}"
  using assms
proof (induction js arbitrary: bd s)
  case Nil
  show ?case by (simp add: constraints_frame_refl)
next
  case (Cons j js)
  from Cons.prems have j: "j < length guess" and js: "\<forall>j\<in>set js. j < length guess"
    by simp_all
  from check_letter_Inr [OF j, of bd s] obtain s1 where
    s1: "check_letter guess j (bd, s) = Inr (bd @ [square_at (answer s) guess j], s1)"
    and fr1: "constraints_frame s s1"
    and eq1: "equals s1 = (if guess ! j = answer s ! j then AList.update j (answer s ! j) (equals s) else equals s)"
    and co1: "contains s1 = (if square_at (answer s) guess j = Yellow
                     then AList.update j (letters_at (contains s) j @ [guess ! j]) (contains s)
                     else contains s)"
    and ni1: "not_in s1 = (if square_at (answer s) guess j = Gray then not_in s @ [guess ! j] else not_in s)"
    by blast
  have ans: "answer s1 = answer s" using fr1 by (simp add: constraints_frame_def)
  from Cons.IH [OF js, of "bd @ [square_at (answer s) guess j]" s1] obtain s' where
    s': "check_letters guess js (bd @ [square_at (answer s) guess j], s1)
           = Inr ((bd @ [square_at (answer s) guess j]) @ map (square_at (answer s) guess) js, s')"
    and fr2: "constraints_frame s1 s'"
    and eq2: "\<forall>k. map_of (equals s') k =
            (if k \<in> set js \<and> guess ! k = answer s ! k then Some (answer s ! k)
             else map_of (equals s1) k)"
    and co2: "\<forall>k. set (letters_at (contains s') k) =
            (if k \<in> set js \<and> square_at (answer s) guess k = Yellow
             then insert (guess ! k) (set (letters_at (contains s1) k))
             else set (letters_at (contains s1) k))"
    and ni2: "set (not_in s') =
       set (not_in s1) \<union> {guess ! j | j. j \<in> set js \<and> square_at (answer s) guess j = Gray}"
    unfolding ans by blast
  have run: "check_letters guess (j # js) (bd, s)
        = Inr (bd @ map (square_at (answer s) guess) (j # js), s')"
    using s1 s' by simp
  have fr: "constraints_frame s s'"
    using fr1 fr2 by (rule constraints_frame_trans)
  have eq: "\<forall>k. map_of (equals s') k =
            (if k \<in> set (j # js) \<and> guess ! k = answer s ! k then Some (answer s ! k)
             else map_of (equals s) k)"
    using eq2 eq1 by (simp add: update_conv')
  have co: "\<forall>k. set (letters_at (contains s') k) =
            (if k \<in> set (j # js) \<and> square_at (answer s) guess k = Yellow
             then insert (guess ! k) (set (letters_at (contains s) k))
             else set (letters_at (contains s) k))"
    using co2 co1 by (auto simp: letters_at_update)
  have ni: "set (not_in s') =
       set (not_in s) \<union> {guess ! i | i. i \<in> set (j # js) \<and> square_at (answer s) guess i = Gray}"
    using ni2 ni1 by auto
  from run fr eq co ni show ?case by blast
qed

text \<open>The loop on a guess too short, and what a loop that returned tells.\<close>

lemma check_letters_append:
  "check_letters guess (xs @ ys) acc =
     (case check_letters guess xs acc of
        Inl e \<Rightarrow> Inl e
      | Inr acc' \<Rightarrow> check_letters guess ys acc')"
  by (induction xs arbitrary: acc) (auto split: sum.splits)

lemma check_letters_short:
  assumes "length guess < n"
  shows "\<exists>s'. check_letters guess [0..<n] (bd, s) = Inl (IndexError, s')"
proof -
  let ?m = "length guess"
  have split: "[0..<n] = [0..<?m] @ (?m # [Suc ?m..<n])"
    using assms by (metis less_imp_le_nat upt_add_eq_append upt_conv_Cons zero_order(1) add_0 le_add_diff_inverse)
  have "\<forall>j\<in>set [0..<?m]. j < length guess" by simp
  from check_letters_Inr [OF this, of bd s] obtain s1 bd1 where
    "check_letters guess [0..<?m] (bd, s) = Inr (bd1, s1)" by blast
  then have "check_letters guess [0..<n] (bd, s) = Inl (IndexError, s1)"
    unfolding split by (simp add: check_letters_append check_letter_Inl)
  then show ?thesis ..
qed



subsection \<open>The loops of \<^verbatim>\<open>filter_possible\<close>\<close>

lemma filtered_frame_refl: "filtered_frame s s"
  by (simp add: filtered_frame_def)

lemma filtered_frame_trans:
  "filtered_frame s s1 \<Longrightarrow> filtered_frame s1 s2 \<Longrightarrow> filtered_frame s s2"
  by (simp add: filtered_frame_def)

lemma rebind_filtered_frame: "filtered_frame s (rebind_filtered d s)"
  by (simp add: filtered_frame_def rebind_filtered_def)

lemma rebind_filtered_dict: "filtered_dict (rebind_filtered d s) = d"
  by (simp add: filtered_dict_def rebind_filtered_def)

lemma filter_equals_Inr:
  "filter_equals es s = Inr s' \<Longrightarrow>
     filtered_frame s s' \<and>
     filtered_dict s' = filter (\<lambda>(w, sc). \<forall>(k, c)\<in>set es. w ! k = c) (filtered_dict s)"
proof (induction es arbitrary: s)
  case Nil
  then show ?case by (simp add: filtered_frame_refl)
next
  case (Cons e es)
  obtain k c where e: "e = (k, c)" by (cases e)
  let ?s1 = "rebind_filtered (filter (\<lambda>(w, sc). w ! k = c) (store s (filtered s))) s"
  from Cons.prems e have run: "filter_equals es ?s1 = Inr s'"
    by (simp add: Let_def split: if_splits)
  from Cons.IH [OF run] have
    fr: "filtered_frame ?s1 s'" and
    d: "filtered_dict s' = filter (\<lambda>(w, sc). \<forall>(k, c)\<in>set es. w ! k = c) (filtered_dict ?s1)"
    by simp_all
  have "filtered_frame s s'"
    using rebind_filtered_frame fr by (rule filtered_frame_trans)
  moreover have "filtered_dict s' = filter (\<lambda>(w, sc). \<forall>(k, c)\<in>set (e # es). w ! k = c) (filtered_dict s)"
    unfolding d rebind_filtered_dict e
    by (auto simp: filtered_dict_def intro: filter_cong)
  ultimately show ?case by simp
qed

lemma filter_equals_total:
  "\<forall>(w, sc)\<in>set (filtered_dict s). \<forall>(k, c)\<in>set es. k < length w \<Longrightarrow>
     \<exists>s'. filter_equals es s = Inr s'"
proof (induction es arbitrary: s)
  case Nil
  show ?case by simp
next
  case (Cons e es)
  obtain k c where e: "e = (k, c)" by (cases e)
  let ?s1 = "rebind_filtered (filter (\<lambda>(w, sc). w ! k = c) (store s (filtered s))) s"
  have noerr: "\<not> (\<exists>(w, sc)\<in>set (store s (filtered s)). length w \<le> k)"
    using Cons.prems e by (fastforce simp: filtered_dict_def)
  have "\<forall>(w, sc)\<in>set (filtered_dict ?s1). \<forall>(k, c)\<in>set es. k < length w"
    unfolding rebind_filtered_dict using Cons.prems by (auto simp: filtered_dict_def)
  from Cons.IH [OF this] obtain s' where "filter_equals es ?s1 = Inr s'" by blast
  with noerr e show ?case by (simp add: Let_def)
qed

lemma filter_contains_at_Inr:
  "filter_contains_at k ls s = Inr s' \<Longrightarrow>
     filtered_frame s s' \<and>
     filtered_dict s' =
       filter (\<lambda>(w, sc). \<forall>l\<in>set ls. l \<in> set w \<and> w ! k \<noteq> l) (filtered_dict s)"
proof (induction ls arbitrary: s)
  case Nil
  then show ?case by (simp add: filtered_frame_refl)
next
  case (Cons l ls)
  let ?s1 = "rebind_filtered
               (filter (\<lambda>(w, sc). l \<in> set w \<and> w ! k \<noteq> l) (store s (filtered s))) s"
  from Cons.prems have run: "filter_contains_at k ls ?s1 = Inr s'"
    by (simp add: Let_def split: if_splits)
  from Cons.IH [OF run] have
    fr: "filtered_frame ?s1 s'" and
    d: "filtered_dict s' =
          filter (\<lambda>(w, sc). \<forall>l\<in>set ls. l \<in> set w \<and> w ! k \<noteq> l) (filtered_dict ?s1)"
    by simp_all
  have "filtered_frame s s'"
    using rebind_filtered_frame fr by (rule filtered_frame_trans)
  moreover have "filtered_dict s' =
      filter (\<lambda>(w, sc). \<forall>l\<in>set (l # ls). l \<in> set w \<and> w ! k \<noteq> l) (filtered_dict s)"
    unfolding d rebind_filtered_dict
    by (auto simp: filtered_dict_def intro: filter_cong)
  ultimately show ?case by simp
qed

lemma filter_contains_at_total:
  "\<forall>(w, sc)\<in>set (filtered_dict s). k < length w \<Longrightarrow>
     \<exists>s'. filter_contains_at k ls s = Inr s'"
proof (induction ls arbitrary: s)
  case Nil
  show ?case by simp
next
  case (Cons l ls)
  let ?s1 = "rebind_filtered
               (filter (\<lambda>(w, sc). l \<in> set w \<and> w ! k \<noteq> l) (store s (filtered s))) s"
  have noerr: "\<not> (\<exists>(w, sc)\<in>set (store s (filtered s)). l \<in> set w \<and> length w \<le> k)"
    using Cons.prems by (fastforce simp: filtered_dict_def)
  have "\<forall>(w, sc)\<in>set (filtered_dict ?s1). k < length w"
    unfolding rebind_filtered_dict using Cons.prems by (auto simp: filtered_dict_def)
  from Cons.IH [OF this] obtain s' where "filter_contains_at k ls ?s1 = Inr s'" by blast
  with noerr show ?case by (simp add: Let_def)
qed

lemma filter_contains_Inr:
  "filter_contains cs s = Inr s' \<Longrightarrow>
     filtered_frame s s' \<and>
     filtered_dict s' =
       filter (\<lambda>(w, sc). \<forall>(k, ls)\<in>set cs. \<forall>l\<in>set ls. l \<in> set w \<and> w ! k \<noteq> l)
         (filtered_dict s)"
proof (induction cs arbitrary: s)
  case Nil
  then show ?case by (simp add: filtered_frame_refl)
next
  case (Cons c cs)
  obtain k ls where c: "c = (k, ls)" by (cases c)
  from Cons.prems c obtain s1 where
    s1: "filter_contains_at k ls s = Inr s1" and run: "filter_contains cs s1 = Inr s'"
    by (auto split: sum.splits)
  from filter_contains_at_Inr [OF s1] have
    fr1: "filtered_frame s s1" and
    d1: "filtered_dict s1 =
       filter (\<lambda>(w, sc). \<forall>l\<in>set ls. l \<in> set w \<and> w ! k \<noteq> l) (filtered_dict s)"
    by simp_all
  from Cons.IH [OF run] have
    fr2: "filtered_frame s1 s'" and
    d2: "filtered_dict s' =
       filter (\<lambda>(w, sc). \<forall>(k, ls)\<in>set cs. \<forall>l\<in>set ls. l \<in> set w \<and> w ! k \<noteq> l)
         (filtered_dict s1)"
    by simp_all
  have "filtered_frame s s'"
    using fr1 fr2 by (rule filtered_frame_trans)
  moreover have "filtered_dict s' =
       filter (\<lambda>(w, sc). \<forall>(k, ls)\<in>set (c # cs). \<forall>l\<in>set ls. l \<in> set w \<and> w ! k \<noteq> l)
         (filtered_dict s)"
    unfolding d2 d1 c by (auto intro: filter_cong)
  ultimately show ?case by simp
qed

lemma filter_contains_total:
  "\<forall>(w, sc)\<in>set (filtered_dict s). \<forall>(k, ls)\<in>set cs. k < length w \<Longrightarrow>
     \<exists>s'. filter_contains cs s = Inr s'"
proof (induction cs arbitrary: s)
  case Nil
  show ?case by simp
next
  case (Cons c cs)
  obtain k ls where c: "c = (k, ls)" by (cases c)
  have "\<forall>(w, sc)\<in>set (filtered_dict s). k < length w"
    using Cons.prems c by auto
  from filter_contains_at_total [OF this] obtain s1 where
    s1: "filter_contains_at k ls s = Inr s1" by blast
  have "set (filtered_dict s1) \<subseteq> set (filtered_dict s)"
    using filter_contains_at_Inr [OF s1] by auto
  with Cons.prems have "\<forall>(w, sc)\<in>set (filtered_dict s1). \<forall>(k, ls)\<in>set cs. k < length w"
    by fastforce
  from Cons.IH [OF this] obtain s' where "filter_contains cs s1 = Inr s'" by blast
  with s1 c show ?case by simp
qed

lemma filter_not_in_result:
  "filtered_frame s (filter_not_in ks s) \<and>
   filtered_dict (filter_not_in ks s) =
     filter (\<lambda>(w, sc). \<forall>l\<in>set ks. l \<notin> set w) (filtered_dict s)"
proof (induction ks arbitrary: s)
  case Nil
  show ?case by (simp add: filtered_frame_refl)
next
  case (Cons k ks)
  let ?s1 = "rebind_filtered (filter (\<lambda>(w, sc). k \<notin> set w) (store s (filtered s))) s"
  from Cons.IH [of ?s1] have
    fr: "filtered_frame ?s1 (filter_not_in ks ?s1)" and
    d: "filtered_dict (filter_not_in ks ?s1) =
          filter (\<lambda>(w, sc). \<forall>l\<in>set ks. l \<notin> set w) (filtered_dict ?s1)"
    by simp_all
  have "filtered_frame s (filter_not_in (k # ks) s)"
    using filtered_frame_trans [OF rebind_filtered_frame fr] by simp
  moreover have "filtered_dict (filter_not_in (k # ks) s) =
     filter (\<lambda>(w, sc). \<forall>l\<in>set (k # ks). l \<notin> set w) (filtered_dict s)"
    using d unfolding rebind_filtered_dict
    by (auto simp: filtered_dict_def intro: filter_cong)
  ultimately show ?case by simp
qed

text \<open>\<^verbatim>\<open>filter_possible\<close> keeps exactly the words that the constraints admit.\<close>

lemma filter_possible_Inr:
  assumes "filter_possible s = Inr s'"
  shows "filtered_frame s s' \<and>
     filtered_dict s' = filter (\<lambda>(w, sc). admits s w) (filtered_dict s)"
proof -
  from assms obtain s1 s2 where
    s1: "filter_equals (equals s) s = Inr s1" and
    s2: "filter_contains (contains s1) s1 = Inr s2" and
    s': "s' = filter_not_in (not_in s2) s2"
    by (auto simp: filter_possible_def split: sum.splits)
  note r1 = filter_equals_Inr [OF s1] and r2 = filter_contains_Inr [OF s2]
    and r3 = filter_not_in_result [of s2 "not_in s2"]
  have c1: "contains s1 = contains s" and n2: "not_in s2 = not_in s"
    using r1 r2 by (simp_all add: filtered_frame_def)
  have "filtered_frame s s'"
    unfolding s' using r1 r2 r3 by (blast intro: filtered_frame_trans)
  moreover have "filtered_dict s' = filter (\<lambda>(w, sc). admits s w) (filtered_dict s)"
    unfolding s' using r1 r2 r3 unfolding c1 n2
    by (auto simp: admits_def intro: filter_cong)
  ultimately show ?thesis by simp
qed

lemma filter_possible_total:
  assumes "\<forall>(w, sc)\<in>set (filtered_dict s). length (answer s) \<le> length w"
    and "\<forall>(k, c)\<in>set (equals s). k < length (answer s)"
    and "\<forall>(k, ls)\<in>set (contains s). k < length (answer s)"
  shows "\<exists>s'. filter_possible s = Inr s'"
proof -
  have "\<forall>(w, sc)\<in>set (filtered_dict s). \<forall>(k, c)\<in>set (equals s). k < length w"
    using assms(1,2) by fastforce
  from filter_equals_total [OF this] obtain s1 where
    s1: "filter_equals (equals s) s = Inr s1" by blast
  note r1 = filter_equals_Inr [OF s1]
  have c1: "contains s1 = contains s"
    using r1 by (simp add: filtered_frame_def)
  have "set (filtered_dict s1) \<subseteq> set (filtered_dict s)"
    using r1 by auto
  with assms(1,3) have "\<forall>(w, sc)\<in>set (filtered_dict s1). \<forall>(k, ls)\<in>set (contains s1). k < length w"
    unfolding c1 by fastforce
  from filter_contains_total [OF this] obtain s2 where
    s2: "filter_contains (contains s1) s1 = Inr s2" by blast
  show ?thesis using s1 s2 by (simp add: filter_possible_def)
qed

subsection \<open>The guess selector\<close>

lemma sum_list_quotients:
  fixes d :: lexicon
  shows "sum_list (map (\<lambda>(w, sc). sc / t) d) = sum_list (map snd d) / t"
  by (induction d) (auto simp: add_divide_distrib)

lemma sum_list_scores_nonneg:
  fixes d :: lexicon
  assumes "\<forall>(w, sc)\<in>set d. 0 < sc"
  shows "0 \<le> sum_list (map snd d)"
  using assms by (induction d) auto

lemma sum_list_scores_pos:
  fixes d :: lexicon
  assumes "d \<noteq> []" and "\<forall>(w, sc)\<in>set d. 0 < sc"
  shows "0 < sum_list (map snd d)"
proof (cases d)
  case Nil
  with assms(1) show ?thesis by simp
next
  case (Cons x xs)
  have "0 < snd x" and "0 \<le> sum_list (map snd xs)"
    using assms(2) Cons sum_list_scores_nonneg [of xs] by auto
  then show ?thesis
    unfolding Cons by (simp add: add_pos_nonneg)
qed

lemma random_choice_ok:
  assumes "a \<noteq> []" and "length p = length a" and "\<forall>x\<in>set p. 0 < x" and "sum_list p = 1"
  shows "\<exists>g. random_choice pick a p = Inr g \<and> g \<in> set a"
proof -
  let ?support = "map fst (filter (\<lambda>(w, q). 0 < q) (zip a p))"
  have all: "filter (\<lambda>(w, q). 0 < q) (zip a p) = zip a p"
    using assms(3) by (auto simp: filter_id_conv dest: set_zip_rightD)
  have sup: "?support = a"
    unfolding all using assms(2) by simp
  have "pick mod length a < length a"
    using assms(1) by simp
  then have "a ! (pick mod length a) \<in> set a"
    by (rule nth_mem)
  moreover have "\<not> (\<exists>x\<in>set p. x < 0)"
    using assms(3) by (auto simp: not_less less_imp_le)
  ultimately show ?thesis
    using assms(1,2,4) unfolding random_choice_def sup Let_def by simp
qed

lemma make_guess_ok:
  assumes "filtered_dict s \<noteq> []" and "\<forall>(w, sc)\<in>set (filtered_dict s). 0 < sc"
  shows "\<exists>g. make_guess pick s = Inr (g, s\<lparr>guesses := guesses s @ [g]\<rparr>) \<and>
              g \<in> keys (filtered_dict s)"
proof -
  let ?d = "filtered_dict s"
  let ?tot = "sum_list (map snd ?d)"
  let ?p = "map (\<lambda>(w, sc). sc / ?tot) ?d"
  have tot: "0 < ?tot"
    using assms by (rule sum_list_scores_pos)
  have "\<forall>x\<in>set ?p. 0 < x"
    using assms(2) tot by auto
  moreover have "sum_list ?p = 1"
    using tot by (simp add: sum_list_quotients)
  moreover have "map fst ?d \<noteq> []" and "length ?p = length (map fst ?d)"
    using assms(1) by simp_all
  ultimately obtain g where
    g: "random_choice pick (map fst ?d) ?p = Inr g" and mem: "g \<in> set (map fst ?d)"
    using random_choice_ok by blast
  have "make_guess pick s = Inr (g, s\<lparr>guesses := guesses s @ [g]\<rparr>)"
    using g tot unfolding make_guess_def Let_def filtered_dict_def [symmetric] by simp
  with mem show ?thesis by (auto simp: keys_def)
qed

lemma make_guess_Inr:
  "make_guess pick s = Inr (g, s') \<Longrightarrow> s' = s\<lparr>guesses := guesses s @ [g]\<rparr>"
  by (auto simp: make_guess_def Let_def split: if_splits sum.splits)

subsection \<open>The constraints stay true of the answer\<close>

lemma set_update_subset: "set (AList.update k v al) \<subseteq> insert (k, v) (set al)"
  by (induction al) auto

lemma letters_at_mem:
  "l \<in> set (letters_at c k) \<Longrightarrow> \<exists>ls. (k, ls) \<in> set c \<and> l \<in> set ls"
proof (cases "map_of c k")
  case None
  assume "l \<in> set (letters_at c k)"
  with None show ?thesis by (simp add: letters_at_def)
next
  case (Some ls)
  assume "l \<in> set (letters_at c k)"
  with Some have "l \<in> set ls" by (simp add: letters_at_def)
  moreover from Some have "(k, ls) \<in> set c" by (rule map_of_SomeD)
  ultimately show ?thesis by blast
qed

lemma check_letter_consistent:
  assumes "consistent s" and "j < length (answer s)"
    and "check_letter guess j (bd, s) = Inr (bd', s')"
  shows "consistent s'"
proof (cases "j < length guess")
  case False
  with assms(3) show ?thesis by (simp add: check_letter_def)
next
  case True
  from check_letter_Inr [OF True, of bd s] assms(3) have
    fr: "constraints_frame s s'"
    and eq: "equals s' = (if guess ! j = answer s ! j then AList.update j (answer s ! j) (equals s) else equals s)"
    and co: "contains s' = (if square_at (answer s) guess j = Yellow
                     then AList.update j (letters_at (contains s) j @ [guess ! j]) (contains s)
                     else contains s)"
    and ni: "not_in s' = (if square_at (answer s) guess j = Gray then not_in s @ [guess ! j] else not_in s)"
    by auto
  have ans: "answer s' = answer s" using fr by (simp add: constraints_frame_def)
  have c1: "\<forall>(k, c)\<in>set (equals s). k < length (answer s) \<and> answer s ! k = c"
    and c2: "\<forall>(k, ls)\<in>set (contains s). k < length (answer s) \<and>
         (\<forall>l\<in>set ls. l \<in> set (answer s) \<and> answer s ! k \<noteq> l)"
    and c3: "\<forall>l\<in>set (not_in s). l \<notin> set (answer s)"
    using assms(1) by (simp_all add: consistent_def)
  have e: "\<forall>(k, c)\<in>set (equals s'). k < length (answer s) \<and> answer s ! k = c"
  proof (cases "guess ! j = answer s ! j")
    case True
    then have "set (equals s') \<subseteq> insert (j, answer s ! j) (set (equals s))"
      using eq set_update_subset by simp
    with c1 assms(2) show ?thesis by auto
  next
    case False
    with eq c1 show ?thesis by simp
  qed
  have c: "\<forall>(k, ls)\<in>set (contains s'). k < length (answer s) \<and>
         (\<forall>l\<in>set ls. l \<in> set (answer s) \<and> answer s ! k \<noteq> l)"
  proof (cases "square_at (answer s) guess j = Yellow")
    case True
    then have y: "guess ! j \<in> set (answer s)" "answer s ! j \<noteq> guess ! j"
      by (auto simp: square_at_def split: if_splits)
    have old: "\<forall>l\<in>set (letters_at (contains s) j). l \<in> set (answer s) \<and> answer s ! j \<noteq> l"
      using c2 by (auto dest!: letters_at_mem)
    have sub: "set (contains s') \<subseteq> insert (j, letters_at (contains s) j @ [guess ! j]) (set (contains s))"
      using co True set_update_subset by simp
    show ?thesis
    proof (intro ballI, clarify)
      fix k ls assume "(k, ls) \<in> set (contains s')"
      with sub have "(k, ls) = (j, letters_at (contains s) j @ [guess ! j]) \<or> (k, ls) \<in> set (contains s)"
        by auto
      then show "k < length (answer s) \<and> (\<forall>l\<in>set ls. l \<in> set (answer s) \<and> answer s ! k \<noteq> l)"
      proof
        assume "(k, ls) = (j, letters_at (contains s) j @ [guess ! j])"
        with assms(2) y old show ?thesis by auto
      next
        assume "(k, ls) \<in> set (contains s)"
        with c2 show ?thesis by auto
      qed
    qed
  next
    case False
    with co c2 show ?thesis by simp
  qed
  have n: "\<forall>l\<in>set (not_in s'). l \<notin> set (answer s)"
    using ni c3 by (auto simp: square_at_def split: if_splits)
  from e c n show ?thesis
    unfolding consistent_def ans by simp
qed

lemma check_letters_consistent:
  assumes "consistent s" and "\<forall>j\<in>set js. j < length (answer s)"
    and "check_letters guess js (bd, s) = Inr (bd', s')"
  shows "consistent s'"
  using assms
proof (induction js arbitrary: bd s)
  case Nil
  then show ?case by simp
next
  case (Cons j js)
  from Cons.prems(3) obtain bd1 s1 where
    s1: "check_letter guess j (bd, s) = Inr (bd1, s1)" and
    run: "check_letters guess js (bd1, s1) = Inr (bd', s')"
    by (auto split: sum.splits)
  have j: "j < length (answer s)" using Cons.prems(2) by simp
  have c1: "consistent s1"
    using Cons.prems(1) j s1 by (rule check_letter_consistent)
  have "j < length guess"
    using s1 by (auto simp: check_letter_def split: if_splits)
  from check_letter_Inr [OF this, of bd s] s1 have "answer s1 = answer s"
    by (auto simp: constraints_frame_def)
  with Cons.prems(2) have "\<forall>j\<in>set js. j < length (answer s1)" by simp
  from Cons.IH [OF c1 this run] show ?case .
qed

text \<open>\<^verbatim>\<open>check_word\<close> on a guess long enough, in a session not solved.\<close>

lemma check_word_ok:
  assumes "\<not> solved s" and "length (answer s) \<le> length guess" and "consistent s"
  shows "\<exists>s'. check_word guess s = Inr s' \<and> consistent s' \<and>
     answer s' = answer s \<and> words s' = words s \<and> store s' = store s \<and>
     next_addr s' = next_addr s \<and> freq s' = freq s \<and> filtered s' = filtered s \<and>
     played s' = played s \<and> solved s' = solved s \<and> guesses s' = guesses s \<and>
     length (board s') = Suc (length (board s))"
proof -
  let ?n = "length (answer s)"
  have "\<forall>j\<in>set [0..<?n]. j < length guess"
    using assms(2) by simp
  from check_letters_Inr [OF this, of "[]" s] obtain s1 where
    run: "check_letters guess [0..<?n] ([], s) = Inr (map (square_at (answer s) guess) [0..<?n], s1)"
    and fr: "constraints_frame s s1"
    by auto
  have c1: "consistent s1"
    using assms(3) _ run by (rule check_letters_consistent) simp
  let ?s' = "s1\<lparr>board := board s1 @ [map (square_at (answer s) guess) [0..<?n]]\<rparr>"
  have "check_word guess s = Inr ?s'"
    using assms(1) run by (simp add: check_word_def)
  moreover have "consistent ?s'"
    using c1 by (simp add: consistent_def)
  ultimately show ?thesis
    using fr by (simp add: constraints_frame_def)
qed

subsection \<open>One round\<close>

lemma consistent_admits: "consistent s \<Longrightarrow> admits s (answer s)"
  by (fastforce simp: consistent_def admits_def)

lemma lexicon_ok_filter:
  assumes "lexicon_ok ans d" and "P ans"
  shows "lexicon_ok ans (filter (\<lambda>(w, sc). P w) d)"
  using assms by (auto simp: lexicon_ok_def keys_def)

lemma keys_filter_subset: "keys (filter P d) \<subseteq> keys d"
  by (auto simp: keys_def)

text \<open>One round of a game in progress returns, and the game is still in progress.\<close>

lemma play_round_ok:
  assumes "in_progress s"
  shows "\<exists>g s'. play_round pick s = Inr (g, s') \<and> g \<in> keys (filtered_dict s) \<and>
     in_progress s' \<and>
     filtered_dict s' = filter (\<lambda>(w, sc). admits s' w) (filtered_dict s) \<and>
     answer s' = answer s \<and> played s' = played s \<and>
     guesses s' = guesses s @ [g] \<and> length (board s') = Suc (length (board s))"
proof -
  from assms have ns: "\<not> solved s" and co: "consistent s"
    and lex: "lexicon_ok (answer s) (filtered_dict s)"
    by (simp_all add: in_progress_def)
  from lex have ne: "filtered_dict s \<noteq> []" and pos: "\<forall>(w, sc)\<in>set (filtered_dict s). 0 < sc"
    and len: "\<forall>(w, sc)\<in>set (filtered_dict s). length w = length (answer s)"
    by (auto simp: lexicon_ok_def keys_def)
  let ?s1 = "\<lambda>g. s\<lparr>guesses := guesses s @ [g]\<rparr>"
  from make_guess_ok [OF ne pos, of pick] obtain g where
    mg: "make_guess pick s = Inr (g, ?s1 g)" and g: "g \<in> keys (filtered_dict s)"
    by blast
  from g len have lg: "length (answer (?s1 g)) \<le> length g"
    by (auto simp: keys_def)
  have ns1: "\<not> solved (?s1 g)" using ns by simp
  have co1: "consistent (?s1 g)" using co by (simp add: consistent_def)
  from check_word_ok [OF ns1 lg co1] obtain s2 where
    cw: "check_word g (?s1 g) = Inr s2" and co2: "consistent s2"
    and f2: "answer s2 = answer s" "store s2 = store s" "filtered s2 = filtered s"
      "played s2 = played s" "solved s2 = solved s" "guesses s2 = guesses s @ [g]"
      "length (board s2) = Suc (length (board s))"
    by auto
  have d2: "filtered_dict s2 = filtered_dict s"
    using f2 by (simp add: filtered_dict_def)
  have b1: "\<forall>(w, sc)\<in>set (filtered_dict s2). length (answer s2) \<le> length w"
    using len f2(1) unfolding d2 by auto
  have b2: "\<forall>(k, c)\<in>set (equals s2). k < length (answer s2)"
    and b3: "\<forall>(k, ls)\<in>set (contains s2). k < length (answer s2)"
    using co2 by (auto simp: consistent_def)
  from filter_possible_total [OF b1 b2 b3] obtain s3 where
    fp: "filter_possible s2 = Inr s3" by blast
  from filter_possible_Inr [OF fp] have
    fr3: "filtered_frame s2 s3" and
    d3: "filtered_dict s3 = filter (\<lambda>(w, sc). admits s2 w) (filtered_dict s)"
    unfolding d2 by simp_all
  have adm: "admits s3 = admits s2"
    using fr3 by (simp add: admits_def filtered_frame_def fun_eq_iff)
  have run: "play_round pick s = Inr (g, s3)"
    using mg cw fp by (simp add: play_round_def)
  have co3: "consistent s3"
    using co2 fr3 by (simp add: consistent_def filtered_frame_def)
  have lex3: "lexicon_ok (answer s3) (filtered_dict s3)"
    unfolding d3 using fr3 f2(1) lex consistent_admits [OF co2]
    by (simp add: filtered_frame_def lexicon_ok_filter)
  have ip3: "in_progress s3"
    using co3 lex3 fr3 f2(5) ns by (simp add: in_progress_def filtered_frame_def)
  have rest: "answer s3 = answer s" "played s3 = played s"
    "guesses s3 = guesses s @ [g]" "length (board s3) = Suc (length (board s))"
    using fr3 f2 by (simp_all add: filtered_frame_def)
  from run g ip3 d3 adm rest show ?thesis by simp
qed

subsection \<open>Frames\<close>

lemma lexicon_frame_refl: "lexicon_frame s s"
  by (simp add: lexicon_frame_def)

lemma lexicon_frame_trans:
  "lexicon_frame s s1 \<Longrightarrow> lexicon_frame s1 s2 \<Longrightarrow> lexicon_frame s s2"
  by (simp add: lexicon_frame_def)

lemma filtered_frame_lexicon: "filtered_frame s s' \<Longrightarrow> lexicon_frame s s'"
  by (simp add: filtered_frame_def lexicon_frame_def)

lemma constraints_frame_lexicon: "constraints_frame s s' \<Longrightarrow> lexicon_frame s s'"
  by (simp add: constraints_frame_def lexicon_frame_def)

text \<open>What each call leaves behind, whether it returned or raised.\<close>

lemma check_letter_after:
  "constraints_frame s (after_value (check_letter guess j (bd, s)))"
proof (cases "j < length guess")
  case True
  from check_letter_Inr [OF True, of bd s] show ?thesis
    by (auto simp: after_value_def)
next
  case False
  then show ?thesis
    by (simp add: check_letter_Inl after_value_def constraints_frame_refl)
qed

lemma check_letters_after:
  "constraints_frame s (after_value (check_letters guess js (bd, s)))"
proof (induction js arbitrary: bd s)
  case Nil
  show ?case by (simp add: after_value_def constraints_frame_refl)
next
  case (Cons j js)
  show ?case
  proof (cases "check_letter guess j (bd, s)")
    case (Inl x)
    with check_letter_after [of s guess j bd] show ?thesis
      by (simp add: after_value_def)
  next
    case (Inr acc)
    obtain bd1 s1 where acc: "acc = (bd1, s1)" by (cases acc)
    from check_letter_after [of s guess j bd] Inr acc have "constraints_frame s s1"
      by (simp add: after_value_def)
    from constraints_frame_trans [OF this Cons.IH [of s1 bd1]] Inr acc show ?thesis
      by simp
  qed
qed

text \<open>Apart from the board, \<^verbatim>\<open>check_word\<close> changes the three constraint containers only.\<close>

lemma check_word_after:
  "\<exists>b. constraints_frame s ((after (check_word guess s))\<lparr>board := b\<rparr>)"
proof (cases "solved s")
  case True
  then have "after (check_word guess s) = s"
    by (simp add: check_word_def after_def)
  then have "constraints_frame s ((after (check_word guess s))\<lparr>board := board s\<rparr>)"
    by (simp add: constraints_frame_def)
  then show ?thesis ..
next
  case False
  let ?r = "check_letters guess [0..<length (answer s)] ([], s)"
  have fr: "constraints_frame s (after_value ?r)"
    by (rule check_letters_after)
  show ?thesis
  proof (cases ?r)
    case (Inl x)
    with False have "after (check_word guess s) = after_value ?r"
      by (simp add: check_word_def after_def after_value_def)
    with fr have "constraints_frame s ((after (check_word guess s))\<lparr>board := board s\<rparr>)"
      by (simp add: constraints_frame_def)
    then show ?thesis ..
  next
    case (Inr acc)
    obtain bd1 s1 where acc: "acc = (bd1, s1)" by (cases acc)
    with Inr False have "after (check_word guess s) = s1\<lparr>board := board s1 @ [bd1]\<rparr>"
      by (simp add: check_word_def after_def)
    moreover from fr Inr acc have "constraints_frame s s1"
      by (simp add: after_value_def)
    ultimately have "constraints_frame s ((after (check_word guess s))\<lparr>board := board s\<rparr>)"
      by (simp add: constraints_frame_def)
    then show ?thesis ..
  qed
qed

lemma check_word_lexicon_frame: "lexicon_frame s (after (check_word guess s))"
proof -
  from check_word_after [of s guess] obtain b where
    "constraints_frame s ((after (check_word guess s))\<lparr>board := b\<rparr>)" ..
  then show ?thesis by (simp add: constraints_frame_def lexicon_frame_def)
qed

lemma make_guess_after:
  "\<exists>gs. after_value (make_guess pick s) = s\<lparr>guesses := gs\<rparr>"
proof (cases "make_guess pick s")
  case (Inl x)
  then have "after_value (make_guess pick s) = s"
    by (auto simp: make_guess_def after_value_def Let_def split: if_splits sum.splits)
  then have "after_value (make_guess pick s) = s\<lparr>guesses := guesses s\<rparr>" by simp
  then show ?thesis ..
next
  case (Inr x)
  then have "after_value (make_guess pick s) = s\<lparr>guesses := guesses s @ [fst x]\<rparr>"
    by (auto simp: make_guess_def after_value_def Let_def split: if_splits sum.splits)
  then show ?thesis ..
qed

lemma make_guess_lexicon_frame: "lexicon_frame s (after_value (make_guess pick s))"
proof -
  from make_guess_after [of pick s] obtain gs where
    "after_value (make_guess pick s) = s\<lparr>guesses := gs\<rparr>" ..
  then show ?thesis by (simp add: lexicon_frame_def)
qed

lemma filter_equals_after: "filtered_frame s (after (filter_equals es s))"
proof (induction es arbitrary: s)
  case Nil
  show ?case by (simp add: after_def filtered_frame_refl)
next
  case (Cons e es)
  obtain k c where e: "e = (k, c)" by (cases e)
  let ?s1 = "rebind_filtered (filter (\<lambda>(w, sc). w ! k = c) (store s (filtered s))) s"
  show ?case
  proof (cases "\<exists>(w, sc)\<in>set (store s (filtered s)). length w \<le> k")
    case True
    then show ?thesis by (simp add: e after_def filtered_frame_refl)
  next
    case False
    then have "after (filter_equals (e # es) s) = after (filter_equals es ?s1)"
      by (simp add: e Let_def)
    with filtered_frame_trans [OF rebind_filtered_frame Cons.IH [of ?s1]] show ?thesis
      by simp
  qed
qed

lemma filter_contains_at_after: "filtered_frame s (after (filter_contains_at k ls s))"
proof (induction ls arbitrary: s)
  case Nil
  show ?case by (simp add: after_def filtered_frame_refl)
next
  case (Cons l ls)
  let ?s1 = "rebind_filtered
               (filter (\<lambda>(w, sc). l \<in> set w \<and> w ! k \<noteq> l) (store s (filtered s))) s"
  show ?case
  proof (cases "\<exists>(w, sc)\<in>set (store s (filtered s)). l \<in> set w \<and> length w \<le> k")
    case True
    then show ?thesis by (simp add: after_def filtered_frame_refl)
  next
    case False
    then have "after (filter_contains_at k (l # ls) s) = after (filter_contains_at k ls ?s1)"
      by (simp add: Let_def)
    with filtered_frame_trans [OF rebind_filtered_frame Cons.IH [of ?s1]] show ?thesis
      by simp
  qed
qed

lemma filter_contains_after: "filtered_frame s (after (filter_contains cs s))"
proof (induction cs arbitrary: s)
  case Nil
  show ?case by (simp add: after_def filtered_frame_refl)
next
  case (Cons c cs)
  obtain k ls where c: "c = (k, ls)" by (cases c)
  note fr1 = filter_contains_at_after [of s k ls]
  show ?case
  proof (cases "filter_contains_at k ls s")
    case (Inl x)
    with fr1 show ?thesis by (simp add: c after_def)
  next
    case (Inr s1)
    with fr1 have "filtered_frame s s1" by (simp add: after_def)
    from filtered_frame_trans [OF this Cons.IH [of s1]] Inr show ?thesis
      by (simp add: c)
  qed
qed

lemma filter_possible_after: "filtered_frame s (after (filter_possible s))"
proof (cases "filter_equals (equals s) s")
  case (Inl x)
  with filter_equals_after [of s "equals s"] show ?thesis
    by (simp add: filter_possible_def after_def)
next
  case (Inr s1)
  with filter_equals_after [of s "equals s"] have fr1: "filtered_frame s s1"
    by (simp add: after_def)
  show ?thesis
  proof (cases "filter_contains (contains s1) s1")
    case (Inl x)
    with filter_contains_after [of s1 "contains s1"] have "filtered_frame s1 (after (filter_possible s))"
      using Inr by (simp add: filter_possible_def after_def)
    with fr1 show ?thesis by (rule filtered_frame_trans)
  next
    case Inr2: (Inr s2)
    with filter_contains_after [of s1 "contains s1"] have fr2: "filtered_frame s1 s2"
      by (simp add: after_def)
    have "after (filter_possible s) = filter_not_in (not_in s2) s2"
      using Inr Inr2 by (simp add: filter_possible_def after_def)
    moreover have "filtered_frame s2 (filter_not_in (not_in s2) s2)"
      using filter_not_in_result by simp
    ultimately show ?thesis
      using fr1 fr2 by (auto intro: filtered_frame_trans)
  qed
qed

lemma play_round_after:
  "lexicon_frame s (after_value (play_round pick s)) \<and>
   solved (after_value (play_round pick s)) = solved s \<and>
   played (after_value (play_round pick s)) = played s"
proof -
  from make_guess_after [of pick s] obtain gs where
    m: "after_value (make_guess pick s) = s\<lparr>guesses := gs\<rparr>" ..
  show ?thesis
  proof (cases "make_guess pick s")
    case (Inl x)
    with m show ?thesis
      by (auto simp: play_round_def after_value_def lexicon_frame_def)
  next
    case (Inr x)
    obtain g s1 where x: "x = (g, s1)" by (cases x)
    from m Inr x have s1: "s1 = s\<lparr>guesses := gs\<rparr>" by (simp add: after_value_def)
    from check_word_after [of s1 g] obtain b where
      c: "constraints_frame s1 ((after (check_word g s1))\<lparr>board := b\<rparr>)" ..
    show ?thesis
    proof (cases "check_word g s1")
      case (Inl y)
      with c s1 Inr x show ?thesis
        by (auto simp: play_round_def after_value_def after_def lexicon_frame_def
            constraints_frame_def)
    next
      case Inr2: (Inr s2)
      from c Inr2 have c2: "constraints_frame s1 (s2\<lparr>board := b\<rparr>)"
        by (simp add: after_def)
      note f = filter_possible_after [of s2]
      have "after_value (play_round pick s) = after (filter_possible s2)"
        using Inr x Inr2 by (auto simp: play_round_def after_value_def after_def split: sum.splits)
      with f c2 s1 show ?thesis
        by (simp add: lexicon_frame_def constraints_frame_def filtered_frame_def)
    qed
  qed
qed

lemma play_round_Inr_flags:
  assumes "play_round pick s = Inr (g, s')"
  shows "solved s' = solved s" and "played s' = played s" and "lexicon_frame s s'"
  using play_round_after [of s pick] assms by (simp_all add: after_value_def)

lemma play_rounds_after:
  "lexicon_frame s (after (play_rounds picks is s)) \<and>
   played (after (play_rounds picks is s)) = played s"
proof (induction "is" arbitrary: s)
  case Nil
  show ?case by (simp add: after_def lexicon_frame_refl)
next
  case (Cons i "is")
  note r = play_round_after [of s "picks i"]
  show ?case
  proof (cases "play_round (picks i) s")
    case (Inl x)
    with r show ?thesis by (auto simp: after_def after_value_def)
  next
    case (Inr x)
    obtain g s1 where x: "x = (g, s1)" by (cases x)
    from r Inr x have fr: "lexicon_frame s s1" and pl: "played s1 = played s"
      by (simp_all add: after_value_def)
    show ?thesis
    proof (cases "is_solved g s1")
      case True
      with Inr x fr pl show ?thesis
        by (simp add: after_def lexicon_frame_def)
    next
      case False
      with Inr x have "after (play_rounds picks (i # is) s) = after (play_rounds picks is s1)"
        by simp
      with Cons.IH [of s1] fr pl show ?thesis
        by (auto intro: lexicon_frame_trans)
    qed
  qed
qed

lemma reset_game_lexicon_frame: "lexicon_frame s (reset_game s)"
  by (simp add: lexicon_frame_def reset_game_def)

lemma play_after: "lexicon_frame s (after_value (play picks s))"
proof -
  let ?s0 = "if played s then reset_game s else s"
  have f0: "lexicon_frame s ?s0"
    by (simp add: reset_game_lexicon_frame lexicon_frame_refl)
  have f1: "lexicon_frame ?s0 (after (play_rounds picks [0..<6] ?s0))"
    using play_rounds_after by blast
  have "lexicon_frame (after (play_rounds picks [0..<6] ?s0)) (after_value (play picks s))"
    by (auto simp: play_def after_def after_value_def print_state_rows_def lexicon_frame_def
        split: sum.splits)
  with f0 f1 show ?thesis by (blast intro: lexicon_frame_trans)
qed

subsection \<open>The loop of \<^verbatim>\<open>play\<close>\<close>

lemma fresh_in_progress:
  assumes "fresh s" and "lexicon_ok (answer s) (freq_dict s)"
  shows "in_progress s"
  using assms by (simp add: fresh_def in_progress_def consistent_def filtered_dict_def freq_dict_def)

lemma reset_game_fresh: "fresh (reset_game s)"
  by (simp add: fresh_def reset_game_def)

text \<open>
  The loop of \<^verbatim>\<open>play\<close> from a game in progress: it returns, with the guesses \<open>gs\<close> made; it
  ends solved exactly when its last guess is the answer, and then no earlier guess was.
\<close>

lemma play_rounds_ok:
  assumes "in_progress s"
  shows "\<exists>s' gs. play_rounds picks is s = Inr s' \<and>
     guesses s' = guesses s @ gs \<and> length (board s') = length (board s) + length gs \<and>
     answer s' = answer s \<and> played s' = played s \<and>
     lexicon_ok (answer s) (filtered_dict s') \<and>
     keys (filtered_dict s') \<subseteq> keys (filtered_dict s) \<and>
     (if solved s'
      then gs \<noteq> [] \<and> last gs = answer s \<and> answer s \<notin> set (butlast gs) \<and>
           length gs \<le> length is
      else answer s \<notin> set gs \<and> length gs = length is \<and> in_progress s')"
  using assms
proof (induction "is" arbitrary: s)
  case Nil
  then have "\<not> solved s" and "lexicon_ok (answer s) (filtered_dict s)"
    by (simp_all add: in_progress_def)
  with Nil show ?case by simp
next
  case (Cons i "is")
  from play_round_ok [OF Cons.prems, of "picks i"] obtain g s1 where
    r: "play_round (picks i) s = Inr (g, s1)" and ip1: "in_progress s1"
    and d1: "filtered_dict s1 = filter (\<lambda>(w, sc). admits s1 w) (filtered_dict s)"
    and f1: "answer s1 = answer s" "played s1 = played s" "guesses s1 = guesses s @ [g]"
      "length (board s1) = Suc (length (board s))"
    by blast
  have k1: "keys (filtered_dict s1) \<subseteq> keys (filtered_dict s)"
    unfolding d1 by (rule keys_filter_subset)
  from ip1 have lex1: "lexicon_ok (answer s) (filtered_dict s1)"
    by (simp add: in_progress_def f1)
  show ?case
  proof (cases "g = answer s")
    case True
    let ?s' = "s1\<lparr>solved := True\<rparr>"
    have "play_rounds picks (i # is) s = Inr ?s'"
      using r True f1(1) by (simp add: is_solved_def)
    moreover have "guesses ?s' = guesses s @ [g]"
      "length (board ?s') = length (board s) + length [g]"
      "answer ?s' = answer s" "played ?s' = played s"
      "lexicon_ok (answer s) (filtered_dict ?s')"
      "keys (filtered_dict ?s') \<subseteq> keys (filtered_dict s)"
      using f1 lex1 k1 by (simp_all add: filtered_dict_def)
    moreover have "solved ?s'" "[g] \<noteq> []" "last [g] = answer s"
      "answer s \<notin> set (butlast [g])" "length [g] \<le> length (i # is)"
      using True by simp_all
    ultimately show ?thesis by (metis (no_types))
  next
    case False
    from Cons.IH [OF ip1] obtain s' gs where
      run: "play_rounds picks is s1 = Inr s'"
      and g': "guesses s' = guesses s1 @ gs"
        "length (board s') = length (board s1) + length gs"
        "answer s' = answer s1" "played s' = played s1"
        "lexicon_ok (answer s1) (filtered_dict s')"
        "keys (filtered_dict s') \<subseteq> keys (filtered_dict s1)"
      and fin: "if solved s'
        then gs \<noteq> [] \<and> last gs = answer s1 \<and> answer s1 \<notin> set (butlast gs) \<and>
             length gs \<le> length is
        else answer s1 \<notin> set gs \<and> length gs = length is \<and> in_progress s'"
      by blast
    have "play_rounds picks (i # is) s = Inr s'"
      using r run False f1(1) by (simp add: is_solved_def)
    moreover have "guesses s' = guesses s @ (g # gs)"
      "length (board s') = length (board s) + length (g # gs)"
      "answer s' = answer s" "played s' = played s"
      "lexicon_ok (answer s) (filtered_dict s')"
      "keys (filtered_dict s') \<subseteq> keys (filtered_dict s)"
      using g' f1 k1 by auto
    moreover have "if solved s'
        then g # gs \<noteq> [] \<and> last (g # gs) = answer s \<and> answer s \<notin> set (butlast (g # gs)) \<and>
             length (g # gs) \<le> length (i # is)
        else answer s \<notin> set (g # gs) \<and> length (g # gs) = length (i # is) \<and> in_progress s'"
      using fin False unfolding f1(1) by (auto split: if_splits)
    ultimately show ?thesis by blast
  qed
qed

subsection \<open>Feedback\<close>

text \<open>
  C1. In a session not yet solved, for every guess of the length of the answer,
  \<^verbatim>\<open>check_word\<close> returns and appends one row to the board, of the length of the answer.
  At each position \<open>i\<close>: if \<open>guess[i] = answer[i]\<close> the row has green there and \<^verbatim>\<open>equals[i]\<close>
  is the answer's letter; otherwise, if \<open>guess[i]\<close> occurs anywhere in the answer, the row
  has yellow there and \<open>guess[i]\<close> is among the letters of \<^verbatim>\<open>contains[i]\<close>; otherwise the row
  has gray there and \<open>guess[i]\<close> is in \<^verbatim>\<open>not_in\<close>.
\<close>

theorem check_word_feedback:
  assumes "\<not> solved s" and "length guess = length (answer s)"
  shows "\<exists>s' bd. check_word guess s = Inr s' \<and> board s' = board s @ [bd] \<and>
     length bd = length (answer s) \<and>
     (\<forall>i<length (answer s).
        (guess ! i = answer s ! i \<longrightarrow>
           bd ! i = Green \<and> map_of (equals s') i = Some (answer s ! i)) \<and>
        (guess ! i \<noteq> answer s ! i \<and> guess ! i \<in> set (answer s) \<longrightarrow>
           bd ! i = Yellow \<and> guess ! i \<in> set (letters_at (contains s') i)) \<and>
        (guess ! i \<noteq> answer s ! i \<and> guess ! i \<notin> set (answer s) \<longrightarrow>
           bd ! i = Gray \<and> guess ! i \<in> set (not_in s')))"
proof -
  let ?n = "length (answer s)"
  have "\<forall>j\<in>set [0..<?n]. j < length guess"
    using assms(2) by simp
  from check_letters_Inr [OF this, of "[]" s] obtain s1 where
    run: "check_letters guess [0..<?n] ([], s) = Inr (map (square_at (answer s) guess) [0..<?n], s1)"
    and fr: "constraints_frame s s1"
    and eq: "\<forall>k. map_of (equals s1) k =
            (if k \<in> set [0..<?n] \<and> guess ! k = answer s ! k then Some (answer s ! k)
             else map_of (equals s) k)"
    and co: "\<forall>k. set (letters_at (contains s1) k) =
            (if k \<in> set [0..<?n] \<and> square_at (answer s) guess k = Yellow
             then insert (guess ! k) (set (letters_at (contains s) k))
             else set (letters_at (contains s) k))"
    and ni: "set (not_in s1) =
       set (not_in s) \<union> {guess ! j | j. j \<in> set [0..<?n] \<and> square_at (answer s) guess j = Gray}"
    by auto
  let ?bd = "map (square_at (answer s) guess) [0..<?n]"
  let ?s' = "s1\<lparr>board := board s1 @ [?bd]\<rparr>"
  have cw: "check_word guess s = Inr ?s'"
    using assms(1) run by (simp add: check_word_def)
  have bd: "board ?s' = board s @ [?bd]"
    using fr by (simp add: constraints_frame_def)
  have each: "\<forall>i<?n.
        (guess ! i = answer s ! i \<longrightarrow>
           ?bd ! i = Green \<and> map_of (equals ?s') i = Some (answer s ! i)) \<and>
        (guess ! i \<noteq> answer s ! i \<and> guess ! i \<in> set (answer s) \<longrightarrow>
           ?bd ! i = Yellow \<and> guess ! i \<in> set (letters_at (contains ?s') i)) \<and>
        (guess ! i \<noteq> answer s ! i \<and> guess ! i \<notin> set (answer s) \<longrightarrow>
           ?bd ! i = Gray \<and> guess ! i \<in> set (not_in ?s'))"
  proof (intro allI impI)
    fix i assume i: "i < ?n"
    have g: "guess ! i = answer s ! i \<longrightarrow>
           ?bd ! i = Green \<and> map_of (equals ?s') i = Some (answer s ! i)"
      using i eq by (simp add: square_at_def)
    have y: "guess ! i \<noteq> answer s ! i \<and> guess ! i \<in> set (answer s) \<longrightarrow>
           ?bd ! i = Yellow \<and> guess ! i \<in> set (letters_at (contains ?s') i)"
      using i co by (simp add: square_at_def)
    have a: "guess ! i \<noteq> answer s ! i \<and> guess ! i \<notin> set (answer s) \<longrightarrow>
           ?bd ! i = Gray \<and> guess ! i \<in> set (not_in ?s')"
      using i ni by (auto simp: square_at_def)
    from g y a show "(guess ! i = answer s ! i \<longrightarrow>
           ?bd ! i = Green \<and> map_of (equals ?s') i = Some (answer s ! i)) \<and>
        (guess ! i \<noteq> answer s ! i \<and> guess ! i \<in> set (answer s) \<longrightarrow>
           ?bd ! i = Yellow \<and> guess ! i \<in> set (letters_at (contains ?s') i)) \<and>
        (guess ! i \<noteq> answer s ! i \<and> guess ! i \<notin> set (answer s) \<longrightarrow>
           ?bd ! i = Gray \<and> guess ! i \<in> set (not_in ?s'))"
      by blast
  qed
  have len: "length ?bd = ?n" by simp
  from cw bd len each show ?thesis by blast
qed

theorem check_word_feedback_witness:
  "\<not> solved angle_session \<and> length ''maple'' = length (answer angle_session) \<and>
   (\<exists>s' bd. check_word ''maple'' angle_session = Inr s' \<and> board s' = [bd] \<and>
      bd = [Gray, Yellow, Gray, Green, Green] \<and>
      map_of (equals s') 3 = Some CHR ''l'' \<and>
      CHR ''a'' \<in> set (letters_at (contains s') 1) \<and>
      CHR ''m'' \<in> set (not_in s'))"
  using check_word_feedback [of angle_session "''maple''"]
  by (simp add: angle_session_def check_word_def check_letter_def letters_at_def upt_rec Let_def)

subsection \<open>An empty candidate set\<close>

text \<open>
  C4. On an empty candidate set \<^verbatim>\<open>make_guess\<close> fails: \<^verbatim>\<open>numpy.random.choice\<close> raises its
  \<^verbatim>\<open>ValueError\<close> for an empty population, whatever the random draw, and no guess is
  recorded.
\<close>

theorem make_guess_empty_candidates:
  "filtered_dict s = [] \<Longrightarrow> make_guess pick s = Inl (ValueError, s)"
  by (simp add: make_guess_def filtered_dict_def random_choice_def)

theorem make_guess_empty_candidates_witness:
  "filtered_dict (filter_not_in ''a'' angle_session) = [] \<and>
   make_guess 0 (filter_not_in ''a'' angle_session) =
     Inl (ValueError, filter_not_in ''a'' angle_session)"
  using make_guess_empty_candidates [of "filter_not_in ''a'' angle_session" 0]
  by (simp add: filtered_dict_def angle_session_def rebind_filtered_def)

subsection \<open>Reset\<close>

text \<open>
  C8. After \<^verbatim>\<open>reset_game\<close>, whatever the state before (solved, exhausted or any other),
  the candidate set is the full scored lexicon \<^verbatim>\<open>self.freq\<close> (the same object, which is
  left as it was), the three constraint containers are empty, and the guesses and the
  board are empty.
\<close>

theorem reset_game_restores:
  "filtered_dict (reset_game s) = freq_dict s \<and>
   filtered (reset_game s) = freq (reset_game s) \<and>
   freq_dict (reset_game s) = freq_dict s \<and>
   equals (reset_game s) = [] \<and> contains (reset_game s) = [] \<and>
   not_in (reset_game s) = [] \<and>
   guesses (reset_game s) = [] \<and> board (reset_game s) = []"
  by (simp add: reset_game_def filtered_dict_def freq_dict_def)

subsection \<open>The lexicon is never written\<close>

lemma do_call_lexicon_frame: "lexicon_frame s (do_call s c)"
  by (cases c)
    (simp_all add: do_call_def play_after make_guess_lexicon_frame check_word_lexicon_frame
      filter_possible_after filtered_frame_lexicon reset_game_lexicon_frame)

lemma do_calls_lexicon_frame: "lexicon_frame s (do_calls s cs)"
  unfolding do_calls_def
proof (induction cs arbitrary: s)
  case Nil
  show ?case by (simp add: lexicon_frame_refl)
next
  case (Cons c cs)
  from lexicon_frame_trans [OF do_call_lexicon_frame Cons.IH] show ?case by simp
qed

text \<open>
  C9. Let \<open>s\<close> be the session that \<^verbatim>\<open>__init__\<close> builds. After any sequence of calls of
  \<^verbatim>\<open>play\<close>, \<^verbatim>\<open>make_guess\<close>, \<^verbatim>\<open>check_word\<close>, \<^verbatim>\<open>filter_possible\<close> and \<^verbatim>\<open>reset_game\<close>, whatever
  their arguments and random draws and whether they return or raise, \<^verbatim>\<open>self.freq\<close> is the
  same reference and the dictionary it refers to holds the same word-score pairs, in the
  same order, as at construction: every filter step binds \<^verbatim>\<open>self.filtered\<close> to a new
  dictionary, and no call writes into an existing one, though \<^verbatim>\<open>reset_game\<close> makes
  \<^verbatim>\<open>self.filtered\<close> the same object as \<^verbatim>\<open>self.freq\<close>.
\<close>

theorem freq_never_mutated:
  assumes "init ans ws zf = Inr s"
  shows "freq (do_calls s cs) = freq s \<and>
         freq_dict (do_calls s cs) = freq_dict s \<and>
         freq_dict s = build_freq zf ws"
proof -
  from assms have s: "freq s = 0" "next_addr s = 1" "store s 0 = build_freq zf ws"
    by (auto simp: init_def split: if_splits)
  from do_calls_lexicon_frame [of s cs] have
    "freq (do_calls s cs) = freq s" and "\<forall>a<next_addr s. store (do_calls s cs) a = store s a"
    by (simp_all add: lexicon_frame_def)
  with s show ?thesis by (simp add: freq_dict_def)
qed

theorem freq_never_mutated_witness:
  "init ''angle'' [''angle'', ''ankle'', ''apple'']
     (\<lambda>w. if w = ''apple'' then 10 else if w = ''angle'' then 8 else 6) = Inr angle_session \<and>
   freq_dict (do_calls angle_session
      [Play (\<lambda>i. 0), Check_word ''ab'', Reset_game, Make_guess 2, Check_word ''ankle'',
       Filter_possible, Play (\<lambda>i. i)])
     = [(''apple'', 10), (''angle'', 8), (''ankle'', 6)]"
proof -
  let ?zf = "\<lambda>w. if w = ''apple'' then 10 else if w = ''angle'' then (8::rat) else 6"
  have i: "init ''angle'' [''angle'', ''ankle'', ''apple''] ?zf = Inr angle_session"
    by (simp add: init_def angle_session_def build_freq_def)
  have d: "freq_dict angle_session = [(''apple'', 10), (''angle'', 8), (''ankle'', 6)]"
    by (simp add: angle_session_def freq_dict_def)
  from freq_never_mutated [OF i] d i show ?thesis by simp
qed

subsection \<open>A whole game\<close>

text \<open>
  \<^verbatim>\<open>play\<close> on a session just built or played before, over a lexicon as the specification
  describes it: it returns \<^verbatim>\<open>self.solved\<close>, with one board row per guess.
\<close>

lemma play_ok:
  assumes "lexicon_ok (answer s) (freq_dict s)" and "fresh s \<or> played s"
  shows "\<exists>s'. play picks s = Inr (solved s', s') \<and> played s' \<and> answer s' = answer s \<and>
     length (board s') = length (guesses s') \<and>
     (if solved s'
      then guesses s' \<noteq> [] \<and> last (guesses s') = answer s \<and>
           answer s \<notin> set (butlast (guesses s')) \<and> length (guesses s') \<le> 6
      else answer s \<notin> set (guesses s') \<and> length (guesses s') = 6)"
proof -
  let ?s0 = "if played s then reset_game s else s"
  have fr0: "fresh ?s0"
    using assms(2) by (auto simp: reset_game_fresh)
  have a0: "answer ?s0 = answer s" and d0: "freq_dict ?s0 = freq_dict s"
    by (simp_all add: reset_game_def freq_dict_def)
  have "in_progress ?s0"
    using fr0 assms(1) a0 d0 by (simp add: fresh_in_progress)
  from play_rounds_ok [OF this, of picks "[0..<6]"] obtain s1 gs where
    run: "play_rounds picks [0..<6] ?s0 = Inr s1"
    and g1: "guesses s1 = guesses ?s0 @ gs"
      "length (board s1) = length (board ?s0) + length gs" "answer s1 = answer ?s0"
    and fin: "if solved s1
      then gs \<noteq> [] \<and> last gs = answer ?s0 \<and> answer ?s0 \<notin> set (butlast gs) \<and>
           length gs \<le> length [0..<6::nat]
      else answer ?s0 \<notin> set gs \<and> length gs = length [0..<6::nat] \<and> in_progress s1"
    by blast
  from fr0 have e0: "guesses ?s0 = []" "board ?s0 = []"
    by (simp_all add: fresh_def)
  have gs: "guesses s1 = gs" and bd: "length (board s1) = length gs"
    using g1 e0 by simp_all
  let ?s' = "s1\<lparr>played := True\<rparr>"
  have "print_state_rows s1 = Inr (zip (board s1) (guesses s1))"
    using gs bd by (simp add: print_state_rows_def)
  with run have "play picks s = Inr (solved ?s', ?s')"
    by (simp add: play_def)
  moreover have "played ?s'" "answer ?s' = answer s" "length (board ?s') = length (guesses ?s')"
    using g1(3) a0 gs bd by simp_all
  moreover have "if solved ?s'
      then guesses ?s' \<noteq> [] \<and> last (guesses ?s') = answer s \<and>
           answer s \<notin> set (butlast (guesses ?s')) \<and> length (guesses ?s') \<le> 6
      else answer s \<notin> set (guesses ?s') \<and> length (guesses ?s') = 6"
    using fin gs unfolding a0 by (auto split: if_splits)
  ultimately show ?thesis by blast
qed

text \<open>The two example sessions are such sessions.\<close>

lemma watch_session_ok:
  "lexicon_ok (answer watch_session) (freq_dict watch_session) \<and> fresh watch_session"
  by (simp add: lexicon_ok_def fresh_def watch_session_def freq_dict_def keys_def)

lemma angle_session_ok:
  "lexicon_ok (answer angle_session) (freq_dict angle_session) \<and> fresh angle_session"
  by (simp add: lexicon_ok_def fresh_def angle_session_def freq_dict_def keys_def)

text \<open>
  A game on the answer \<^verbatim>\<open>watch\<close> with the draws that take the first candidate: six guesses,
  none of them the answer.
\<close>

lemma watch_play:
  "(case play first_pick watch_session of
      Inl e \<Rightarrow> False
    | Inr (b, s') \<Rightarrow> \<not> b \<and> \<not> solved s' \<and> played s' \<and>
        guesses s' = [''batch'', ''catch'', ''hatch'', ''latch'', ''match'', ''patch''])"
  by code_simp

text \<open>A game on the answer \<^verbatim>\<open>angle\<close> with the same draws: solved at the second guess.\<close>

lemma angle_play:
  "(case play first_pick angle_session of
      Inl e \<Rightarrow> False
    | Inr (b, s') \<Rightarrow> b \<and> solved s' \<and> played s' \<and> guesses s' = [''apple'', ''angle''])"
  by code_simp



text \<open>
  C7, as the code has it. \<^verbatim>\<open>play\<close> returns true exactly when the session is solved, which
  is exactly when the answer is among the guesses. \<^verbatim>\<open>return_total_moves\<close> is 7, not 6,
  when the six rounds are used up without solving, and between 1 and 6 when solved.
\<close>

theorem play_result_and_moves:
  assumes "lexicon_ok (answer s) (freq_dict s)" and "fresh s \<or> played s"
  shows "\<exists>b s'. play picks s = Inr (b, s') \<and>
     (b \<longleftrightarrow> solved s') \<and> (b \<longleftrightarrow> answer s \<in> set (guesses s')) \<and>
     (\<not> b \<longrightarrow> return_total_moves s' = 7) \<and>
     (b \<longrightarrow> 1 \<le> return_total_moves s' \<and> return_total_moves s' \<le> 6)"
proof -
  from play_ok [OF assms, of picks] obtain s' where
    run: "play picks s = Inr (solved s', s')"
    and fin: "if solved s'
      then guesses s' \<noteq> [] \<and> last (guesses s') = answer s \<and>
           answer s \<notin> set (butlast (guesses s')) \<and> length (guesses s') \<le> 6
      else answer s \<notin> set (guesses s') \<and> length (guesses s') = 6"
    by blast
  have iff: "solved s' \<longleftrightarrow> answer s \<in> set (guesses s')"
  proof
    assume "solved s'"
    with fin have "guesses s' \<noteq> []" and "last (guesses s') = answer s" by simp_all
    then show "answer s \<in> set (guesses s')" using last_in_set by metis
  next
    assume "answer s \<in> set (guesses s')"
    with fin show "solved s'" by (auto split: if_splits)
  qed
  have lost: "\<not> solved s' \<longrightarrow> return_total_moves s' = 7"
    using fin by (simp add: return_total_moves_def)
  have won: "solved s' \<longrightarrow> 1 \<le> return_total_moves s' \<and> return_total_moves s' \<le> 6"
  proof
    assume sv: "solved s'"
    with fin have "guesses s' \<noteq> []" and "length (guesses s') \<le> 6" by simp_all
    then have "1 \<le> length (guesses s')" by (cases "guesses s'") simp_all
    with sv \<open>length (guesses s') \<le> 6\<close>
    show "1 \<le> return_total_moves s' \<and> return_total_moves s' \<le> 6"
      by (simp add: return_total_moves_def)
  qed
  from run iff lost won show ?thesis by blast
qed

theorem play_result_and_moves_witness:
  "lexicon_ok (answer watch_session) (freq_dict watch_session) \<and>
   (fresh watch_session \<or> played watch_session) \<and>
   (\<exists>b s'. play first_pick watch_session = Inr (b, s') \<and> \<not> b \<and>
      return_total_moves s' = 7) \<and>
   lexicon_ok (answer angle_session) (freq_dict angle_session) \<and>
   (fresh angle_session \<or> played angle_session) \<and>
   (\<exists>b s'. play first_pick angle_session = Inr (b, s') \<and> b \<and>
      1 \<le> return_total_moves s' \<and> return_total_moves s' \<le> 6)"
proof -
  from play_result_and_moves [of watch_session first_pick] watch_session_ok obtain b s' where
    run: "play first_pick watch_session = Inr (b, s')"
    and lost: "\<not> b \<longrightarrow> return_total_moves s' = 7"
    by blast
  from watch_play run have "\<not> b" by simp
  with run lost have w: "\<exists>b s'. play first_pick watch_session = Inr (b, s') \<and> \<not> b \<and>
      return_total_moves s' = 7"
    by blast
  from play_result_and_moves [of angle_session first_pick] angle_session_ok obtain c t' where
    run': "play first_pick angle_session = Inr (c, t')"
    and won: "c \<longrightarrow> 1 \<le> return_total_moves t' \<and> return_total_moves t' \<le> 6"
    by blast
  from angle_play run' have "c" by simp
  with run' won have a: "\<exists>b s'. play first_pick angle_session = Inr (b, s') \<and> b \<and>
      1 \<le> return_total_moves s' \<and> return_total_moves s' \<le> 6"
    by blast
  from w a watch_session_ok angle_session_ok show ?thesis by blast
qed

text \<open>
  Against C7 as stated: with the answer \<^verbatim>\<open>watch\<close> and the draws that take the first
  candidate, the six guesses are \<^verbatim>\<open>batch\<close>, \<^verbatim>\<open>catch\<close>, \<^verbatim>\<open>hatch\<close>, \<^verbatim>\<open>latch\<close>, \<^verbatim>\<open>match\<close>, \<^verbatim>\<open>patch\<close>; the
  session is exhausted without solving, and the move count reported is not 6.
\<close>

theorem exhausted_reports_seven:
  "\<not> isl (play first_pick watch_session) \<and>
   \<not> fst (projr (play first_pick watch_session)) \<and>
   \<not> solved (snd (projr (play first_pick watch_session))) \<and>
   length (guesses (snd (projr (play first_pick watch_session)))) = 6 \<and>
   return_total_moves (snd (projr (play first_pick watch_session))) \<noteq> 6"
  using watch_play
  by (cases "play first_pick watch_session") (auto simp: return_total_moves_def)

subsection \<open>The candidate set round over round\<close>

text \<open>Rounds after rounds: the \<^verbatim>\<open>break\<close> skips the later ones.\<close>

lemma play_rounds_append:
  assumes "\<not> solved s"
  shows "play_rounds picks (is @ js) s =
     (case play_rounds picks is s of
        Inl e \<Rightarrow> Inl e
      | Inr s' \<Rightarrow> if solved s' then Inr s' else play_rounds picks js s')"
  using assms
proof (induction "is" arbitrary: s)
  case Nil
  then show ?case by simp
next
  case (Cons i "is")
  show ?case
  proof (cases "play_round (picks i) s")
    case (Inl e)
    then show ?thesis by simp
  next
    case (Inr x)
    obtain g s1 where x: "x = (g, s1)" by (cases x)
    from play_round_Inr_flags(1) [of "picks i" s g s1] Inr x Cons.prems
    have ns1: "\<not> solved s1" by simp
    show ?thesis
    proof (cases "is_solved g s1")
      case True
      with Inr x show ?thesis by simp
    next
      case False
      with Inr x Cons.IH [OF ns1] show ?thesis by simp
    qed
  qed
qed

text \<open>
  C2. In a session just built whose lexicon holds the answer (and, as the specification
  has it, words of the answer's length and positive scores), for every number \<open>n\<close> of
  rounds and all random draws: the loop of \<^verbatim>\<open>play\<close> returns after \<open>n\<close> and after \<open>n + 1\<close>
  rounds; after round \<open>n + 1\<close> (its \<^verbatim>\<open>check_word\<close> and \<^verbatim>\<open>filter_possible\<close>) the answer is still
  a key of the candidate set, and that candidate set is a subset, by key and by item, of
  the candidate set after round \<open>n\<close>, so it is no larger. Once the session is solved the
  loop has ended and the state stays as it is.
\<close>

theorem candidates_keep_answer:
  assumes "fresh s" and "lexicon_ok (answer s) (freq_dict s)"
  shows "\<exists>s1 s2. play_rounds picks [0..<n] s = Inr s1 \<and>
     play_rounds picks [0..<Suc n] s = Inr s2 \<and>
     answer s \<in> keys (filtered_dict s2) \<and>
     keys (filtered_dict s2) \<subseteq> keys (filtered_dict s1) \<and>
     set (filtered_dict s2) \<subseteq> set (filtered_dict s1) \<and>
     length (filtered_dict s2) \<le> length (filtered_dict s1)"
proof -
  have ip: "in_progress s"
    using assms by (rule fresh_in_progress)
  then have ns: "\<not> solved s" by (simp add: in_progress_def)
  from play_rounds_ok [OF ip, of picks "[0..<n]"] obtain s1 where
    r1: "play_rounds picks [0..<n] s = Inr s1"
    and a1: "answer s1 = answer s"
    and lex1: "lexicon_ok (answer s) (filtered_dict s1)"
    and fin1: "\<not> solved s1 \<longrightarrow> in_progress s1"
    by (auto split: if_splits)
  have r2: "play_rounds picks [0..<Suc n] s =
      (if solved s1 then Inr s1 else play_rounds picks [n] s1)"
    using play_rounds_append [OF ns, of picks "[0..<n]" "[n]"] r1 by simp
  show ?thesis
  proof (cases "solved s1")
    case True
    with r2 have "play_rounds picks [0..<Suc n] s = Inr s1" by simp
    moreover have "answer s \<in> keys (filtered_dict s1)"
      using lex1 by (simp add: lexicon_ok_def)
    ultimately show ?thesis using r1 by auto
  next
    case False
    with fin1 have ip1: "in_progress s1" by simp
    from play_round_ok [OF ip1, of "picks n"] obtain g s' where
      r: "play_round (picks n) s1 = Inr (g, s')" and ip': "in_progress s'"
      and d': "filtered_dict s' = filter (\<lambda>(w, sc). admits s' w) (filtered_dict s1)"
      and a': "answer s' = answer s1"
      by blast
    let ?s2 = "if is_solved g s' then s'\<lparr>solved := True\<rparr> else s'"
    have d2: "filtered_dict ?s2 = filter (\<lambda>(w, sc). admits s' w) (filtered_dict s1)"
      using d' by (simp add: filtered_dict_def)
    have run: "play_rounds picks [0..<Suc n] s = Inr ?s2"
      using r2 False r by simp
    have "answer s \<in> keys (filtered_dict s')"
      using ip' a' a1 by (simp add: in_progress_def lexicon_ok_def)
    then have mem: "answer s \<in> keys (filtered_dict ?s2)"
      by (simp add: filtered_dict_def)
    have sub: "keys (filtered_dict ?s2) \<subseteq> keys (filtered_dict s1)"
      unfolding d2 by (rule keys_filter_subset)
    have sub': "set (filtered_dict ?s2) \<subseteq> set (filtered_dict s1)"
      unfolding d2 by simp
    have len: "length (filtered_dict ?s2) \<le> length (filtered_dict s1)"
      unfolding d2 by (rule length_filter_le)
    from r1 run mem sub sub' len show ?thesis by blast
  qed
qed

theorem candidates_keep_answer_witness:
  "fresh watch_session \<and> lexicon_ok (answer watch_session) (freq_dict watch_session) \<and>
   (\<exists>s1 s2. play_rounds first_pick [0..<2] watch_session = Inr s1 \<and>
     play_rounds first_pick [0..<Suc 2] watch_session = Inr s2 \<and>
     answer watch_session \<in> keys (filtered_dict s2) \<and>
     keys (filtered_dict s2) \<subseteq> keys (filtered_dict s1) \<and>
     set (filtered_dict s2) \<subseteq> set (filtered_dict s1) \<and>
     length (filtered_dict s2) \<le> length (filtered_dict s1))"
  using candidates_keep_answer [of watch_session first_pick 2] watch_session_ok by blast

subsection \<open>Playing again\<close>



subsection \<open>Absorbing the same feedback twice\<close>





subsection \<open>Guesses of another length\<close>

text \<open>
  C6, as the code has it. \<^verbatim>\<open>check_word\<close> has no test of the lengths. In a session not
  solved, a guess shorter than the answer makes it fail with the \<^verbatim>\<open>IndexError\<close> of
  \<^verbatim>\<open>guess[j]\<close>; a guess at least as long as the answer makes it return, with a row for the
  positions of the answer only, so a longer guess is accepted and its extra letters are
  ignored. In a solved session it returns at once, whatever the guess.
\<close>

theorem check_word_length:
  "(\<not> solved s \<and> length guess < length (answer s) \<longrightarrow>
      (\<exists>s'. check_word guess s = Inl (IndexError, s'))) \<and>
   (\<not> solved s \<and> length (answer s) \<le> length guess \<longrightarrow>
      (\<exists>s'. check_word guess s = Inr s' \<and>
         board s' = board s @ [map (square_at (answer s) guess) [0..<length (answer s)]])) \<and>
   (solved s \<longrightarrow> check_word guess s = Inr s)"
proof (intro conjI impI)
  assume a: "\<not> solved s \<and> length guess < length (answer s)"
  then obtain s' where
    "check_letters guess [0..<length (answer s)] ([], s) = Inl (IndexError, s')"
    using check_letters_short by blast
  with a have "check_word guess s = Inl (IndexError, s')"
    by (simp add: check_word_def)
  then show "\<exists>s'. check_word guess s = Inl (IndexError, s')" ..
next
  assume a: "\<not> solved s \<and> length (answer s) \<le> length guess"
  let ?n = "length (answer s)"
  have "\<forall>j\<in>set [0..<?n]. j < length guess" using a by simp
  from check_letters_Inr [OF this, of "[]" s] obtain s1 where
    run: "check_letters guess [0..<?n] ([], s) = Inr (map (square_at (answer s) guess) [0..<?n], s1)"
    and fr: "constraints_frame s s1"
    by auto
  let ?s' = "s1\<lparr>board := board s1 @ [map (square_at (answer s) guess) [0..<?n]]\<rparr>"
  have "check_word guess s = Inr ?s'"
    using a run by (simp add: check_word_def)
  moreover have "board ?s' = board s @ [map (square_at (answer s) guess) [0..<?n]]"
    using fr by (simp add: constraints_frame_def)
  ultimately show "\<exists>s'. check_word guess s = Inr s' \<and>
         board s' = board s @ [map (square_at (answer s) guess) [0..<length (answer s)]]"
    by blast
next
  assume "solved s"
  then show "check_word guess s = Inr s" by (simp add: check_word_def)
qed

theorem check_word_length_witness:
  "(\<not> solved angle_session \<and> length ''ab'' < length (answer angle_session) \<and>
    (\<exists>s'. check_word ''ab'' angle_session = Inl (IndexError, s'))) \<and>
   (\<not> solved angle_session \<and> length (answer angle_session) \<le> length ''angles'' \<and>
    (\<exists>s'. check_word ''angles'' angle_session = Inr s' \<and>
       board s' = [[Green, Green, Green, Green, Green]]))"
  using check_word_length [of angle_session "''ab''"]
    check_word_length [of angle_session "''angles''"]
  by (simp add: angle_session_def square_at_def upt_rec)

text \<open>
  Against C6 as stated: the guess \<^verbatim>\<open>angles\<close> is longer than the answer \<^verbatim>\<open>angle\<close>, and
  \<^verbatim>\<open>check_word\<close> returns, with an all-green row.
\<close>

theorem check_word_longer_guess:
  "length ''angles'' \<noteq> length (answer angle_session) \<and>
   \<not> isl (check_word ''angles'' angle_session) \<and>
   board (projr (check_word ''angles'' angle_session)) = [[Green, Green, Green, Green, Green]]"
  by code_simp

end
